theory Spec2Isabelle
  imports Complex_Main "HOL-Library.Sublist"
begin

section \<open>Python values used by main.py\<close>

text \<open>
  The program is one Kivy module, \<^verbatim>\<open>main.py\<close>: a form that stores a delivery record in
  SQLite, a popup that reconciles the empties received against the cylinders delivered,
  and a screen that lists the records of a date. Its handlers are modelled as functions
  on the widget state they read and write and on the database they share. Exceptions are
  values of \<open>exn\<close>; a handler that catches an exception and opens a message popup adds an
  \<open>alert\<close> to its screen.
\<close>

datatype exn = ValueError | OverflowError | IndexError | StorageError

datatype alert = Alert string string

subsection \<open>Text: \<^verbatim>\<open>str.strip\<close>, \<^verbatim>\<open>int(text)\<close>, \<^verbatim>\<open>str(n)\<close>\<close>

text \<open>
  Text is a list of 8-bit characters, so the model covers ASCII text: the whitespace and
  the digits below are the ASCII ones. CPython's cap on the number of digits that
  \<^verbatim>\<open>int(text)\<close> accepts (4300 by default) is not modelled.
\<close>

definition is_space :: "char \<Rightarrow> bool" where
  "is_space c = (c \<in> set [CHR '' '', CHR 0x09, CHR 0x0A, CHR 0x0B, CHR 0x0C, CHR 0x0D,
                         CHR 0x1C, CHR 0x1D, CHR 0x1E, CHR 0x1F])"

definition strip :: "string \<Rightarrow> string" where
  "strip s = rev (dropWhile is_space (rev (dropWhile is_space s)))"

definition digit_val :: "char \<Rightarrow> int option" where
  "digit_val c = map_of [(CHR ''0'', 0), (CHR ''1'', 1), (CHR ''2'', 2), (CHR ''3'', 3),
     (CHR ''4'', 4), (CHR ''5'', 5), (CHR ''6'', 6), (CHR ''7'', 7), (CHR ''8'', 8),
     (CHR ''9'', 9)] c"

definition is_digit :: "char \<Rightarrow> bool" where
  "is_digit c = (digit_val c \<noteq> None)"

text \<open>
  The digits of \<^verbatim>\<open>int(text)\<close> after the sign: at least one digit, and an underscore only
  between two digits.
\<close>

fun py_digits :: "int \<Rightarrow> string \<Rightarrow> int option" where
  "py_digits acc [] = None"
| "py_digits acc (c # cs) =
     (case digit_val c of
        None \<Rightarrow> None
      | Some v \<Rightarrow>
          (case cs of
             [] \<Rightarrow> Some (10 * acc + v)
           | d # ds \<Rightarrow>
               if d = CHR ''_'' then py_digits (10 * acc + v) ds
               else py_digits (10 * acc + v) cs))"

definition py_int :: "string \<Rightarrow> int option" where
  "py_int s =
     (case strip s of
        [] \<Rightarrow> None
      | c # cs \<Rightarrow>
          if c = CHR ''-'' then map_option uminus (py_digits 0 cs)
          else if c = CHR ''+'' then py_digits 0 cs
          else py_digits 0 (c # cs))"

text \<open>\<^verbatim>\<open>int(text or dflt)\<close>: the empty text is falsy, so the default is taken.\<close>

definition int_or :: "string \<Rightarrow> int \<Rightarrow> exn + int" where
  "int_or t dflt =
     (if t = [] then Inr dflt
      else case py_int t of None \<Rightarrow> Inl ValueError | Some n \<Rightarrow> Inr n)"

definition digit_char :: "int \<Rightarrow> char" where
  "digit_char k = ''0123456789'' ! nat k"

function str_nat :: "int \<Rightarrow> string" where
  "str_nat n = (if n < 10 then [digit_char n] else str_nat (n div 10) @ [digit_char (n mod 10)])"
  by pat_completeness auto
termination
  by (relation "measure nat") auto

declare str_nat.simps [simp del]

definition str_int :: "int \<Rightarrow> string" where
  "str_int i = (if i < 0 then CHR ''-'' # str_nat (- i) else str_nat i)"

text \<open>\<^verbatim>\<open>", ".join(xs)\<close>\<close>

fun join :: "string \<Rightarrow> string list \<Rightarrow> string" where
  "join sep [] = []"
| "join sep [x] = x"
| "join sep (x # y # ys) = x @ sep @ join sep (y # ys)"

text \<open>
  \<^verbatim>\<open>xs[i]\<close> on a list: a negative index counts from the end, an index out of range raises
  IndexError.
\<close>

definition py_index :: "'a list \<Rightarrow> int \<Rightarrow> exn + 'a" where
  "py_index xs i =
     (if 0 \<le> i \<and> i < int (length xs) then Inr (xs ! nat i)
      else if i < 0 \<and> - int (length xs) \<le> i then Inr (xs ! nat (int (length xs) + i))
      else Inl IndexError)"

subsection \<open>Floats: binary64 with round-to-nearest-even\<close>

text \<open>
  A Python float is an IEEE 754 binary64 value. \<open>Finite s m e\<close> is the number
  \<open>(-1)\<^sup>s * m * 2\<^sup>e\<close>, kept in the format's canonical form: \<open>m < 2\<^sup>5\<^sup>3\<close>,
  \<open>-1074 \<le> e \<le> 971\<close>, and \<open>2\<^sup>5\<^sup>2 \<le> m\<close> unless \<open>e = -1074\<close> (zero and the
  subnormal numbers). All arithmetic is on integers.
\<close>

datatype pyfloat = Finite bool int int | Infinity bool | NaN

definition pow2 :: "int \<Rightarrow> int" where
  "pow2 k = 2 ^ nat k"

function bit_length :: "int \<Rightarrow> int" where
  "bit_length n = (if n \<le> 0 then 0 else 1 + bit_length (n div 2))"
  by pat_completeness auto
termination
  by (relation "measure nat") auto

declare bit_length.simps [simp del]

text \<open>The integer nearest to \<open>a / b\<close> (for \<open>0 \<le> a\<close>, \<open>0 < b\<close>), a tie going to the even one.\<close>

definition round_half_even :: "int \<Rightarrow> int \<Rightarrow> int" where
  "round_half_even a b =
     (let q = a div b; r = a mod b
      in if 2 * r < b then q
         else if b < 2 * r then q + 1
         else if even q then q else q + 1)"

text \<open>The \<open>k\<close> with \<open>2\<^sup>k \<le> n / d < 2\<^sup>k\<^sup>+\<^sup>1\<close>, for positive \<open>n\<close> and \<open>d\<close>.\<close>

definition floor_log2 :: "int \<Rightarrow> int \<Rightarrow> int" where
  "floor_log2 n d =
     (let c = bit_length n - bit_length d
      in if (if 0 \<le> c then d * pow2 c \<le> n else d \<le> n * pow2 (- c)) then c else c - 1)"

text \<open>
  The binary64 value nearest to \<open>(-1)\<^sup>s * n / d\<close> (\<open>0 \<le> n\<close>, \<open>0 < d\<close>): what the
  hardware's rounding and C's \<^verbatim>\<open>strtod\<close> deliver. The result overflows to an infinity
  from \<open>2\<^sup>1\<^sup>0\<^sup>2\<^sup>4\<close> on.
\<close>

definition to_double :: "bool \<Rightarrow> int \<Rightarrow> int \<Rightarrow> pyfloat" where
  "to_double s n d =
     (if n = 0 then Finite s 0 (- 1074)
      else
        let e = max (floor_log2 n d - 52) (- 1074);
            m = (if 0 \<le> e then round_half_even n (d * pow2 e)
                 else round_half_even (n * pow2 (- e)) d)
        in if m = pow2 53
           then (if 971 \<le> e then Infinity s else Finite s (pow2 52) (e + 1))
           else if 971 < e then Infinity s else Finite s m e)"

text \<open>The binary64 value nearest to \<open>(-1)\<^sup>s * n * 2\<^sup>k\<close>.\<close>

definition scaled :: "bool \<Rightarrow> int \<Rightarrow> int \<Rightarrow> pyfloat" where
  "scaled s n k = (if 0 \<le> k then to_double s (n * pow2 k) 1 else to_double s n (pow2 (- k)))"

definition signed :: "bool \<Rightarrow> int \<Rightarrow> int" where
  "signed s m = (if s then - m else m)"

fun fmul :: "pyfloat \<Rightarrow> pyfloat \<Rightarrow> pyfloat" where
  "fmul NaN y = NaN"
| "fmul x NaN = NaN"
| "fmul (Infinity s) (Infinity t) = Infinity (s \<noteq> t)"
| "fmul (Infinity s) (Finite t n f) = (if n = 0 then NaN else Infinity (s \<noteq> t))"
| "fmul (Finite s m e) (Infinity t) = (if m = 0 then NaN else Infinity (s \<noteq> t))"
| "fmul (Finite s m e) (Finite t n f) = scaled (s \<noteq> t) (m * n) (e + f)"

fun fadd :: "pyfloat \<Rightarrow> pyfloat \<Rightarrow> pyfloat" where
  "fadd NaN y = NaN"
| "fadd x NaN = NaN"
| "fadd (Infinity s) (Infinity t) = (if s = t then Infinity s else NaN)"
| "fadd (Infinity s) (Finite t n f) = Infinity s"
| "fadd (Finite s m e) (Infinity t) = Infinity t"
| "fadd (Finite s m e) (Finite t n f) =
     (let g = min e f;
          v = signed s m * pow2 (e - g) + signed t n * pow2 (f - g)
      in if v = 0 then Finite (s \<and> t) 0 (- 1074) else scaled (v < 0) \<bar>v\<bar> g)"

text \<open>
  An int that meets a float in \<^verbatim>\<open>cash_cylinders * price\<close> is converted first; the
  conversion rounds to nearest and raises OverflowError when the int is too large.
\<close>

definition float_of_int :: "int \<Rightarrow> exn + pyfloat" where
  "float_of_int n =
     (case to_double (n < 0) \<bar>n\<bar> 1 of
        Infinity s \<Rightarrow> Inl OverflowError
      | x \<Rightarrow> Inr x)"

text \<open>
  \<^verbatim>\<open>round(x, ndigits)\<close> for a float and \<open>0 \<le> ndigits\<close>: CPython writes the exact binary
  value of \<open>x\<close> with \<open>ndigits\<close> decimals, correctly rounded and a tie going to the even
  digit, and reads the decimal back as the nearest float. Infinities and NaN are returned
  as they are.
\<close>

definition py_round :: "pyfloat \<Rightarrow> nat \<Rightarrow> pyfloat" where
  "py_round x ndigits =
     (case x of
        Finite s m e \<Rightarrow>
          to_double s
            (if 0 \<le> e then 10 ^ ndigits * m * pow2 e
             else round_half_even (10 ^ ndigits * m) (pow2 (- e)))
            (10 ^ ndigits)
      | Infinity s \<Rightarrow> x
      | NaN \<Rightarrow> x)"

text \<open>
  \<^verbatim>\<open>float(text)\<close>: surrounding whitespace is dropped, an underscore may stand between
  two digits, then comes a sign and either \<^verbatim>\<open>inf\<close>, \<^verbatim>\<open>infinity\<close>, \<^verbatim>\<open>nan\<close> in any case
  or a decimal numeral with an optional exponent. The numeral is read as the nearest float.
\<close>

fun no_underscores :: "char \<Rightarrow> string \<Rightarrow> string option" where
  "no_underscores prev [] = (if prev = CHR ''_'' then None else Some [])"
| "no_underscores prev (c # cs) =
     (if c = CHR ''_'' then (if is_digit prev then no_underscores c cs else None)
      else if prev = CHR ''_'' \<and> \<not> is_digit c then None
      else map_option ((#) c) (no_underscores c cs))"

definition lower :: "char \<Rightarrow> char" where
  "lower c =
     (case map_of (zip ''ABCDEFGHIJKLMNOPQRSTUVWXYZ'' ''abcdefghijklmnopqrstuvwxyz'') c of
        None \<Rightarrow> c
      | Some l \<Rightarrow> l)"

definition digits_val :: "string \<Rightarrow> int" where
  "digits_val ds = foldl (\<lambda>a c. 10 * a + (case digit_val c of None \<Rightarrow> 0 | Some v \<Rightarrow> v)) 0 ds"

definition unsigned_digits :: "string \<Rightarrow> int option" where
  "unsigned_digits ds = (if ds \<noteq> [] \<and> list_all is_digit ds then Some (digits_val ds) else None)"

definition exponent :: "string \<Rightarrow> int option" where
  "exponent r =
     (case r of
        [] \<Rightarrow> Some 0
      | c # cs \<Rightarrow>
          if c = CHR ''e'' \<or> c = CHR ''E'' then
            (case cs of
               [] \<Rightarrow> None
             | g # ds \<Rightarrow>
                 if g = CHR ''-'' then map_option uminus (unsigned_digits ds)
                 else if g = CHR ''+'' then unsigned_digits ds
                 else unsigned_digits cs)
          else None)"

definition decimal :: "bool \<Rightarrow> int \<Rightarrow> int \<Rightarrow> pyfloat" where
  "decimal s n k = (if 0 \<le> k then to_double s (n * 10 ^ nat k) 1 else to_double s n (10 ^ nat (- k)))"

definition numeral_float :: "bool \<Rightarrow> string \<Rightarrow> pyfloat option" where
  "numeral_float s u =
     (let ip = takeWhile is_digit u;
          r1 = dropWhile is_digit u;
          fp = (case r1 of [] \<Rightarrow> [] | c # r \<Rightarrow> if c = CHR ''.'' then takeWhile is_digit r else []);
          r2 = (case r1 of [] \<Rightarrow> [] | c # r \<Rightarrow> if c = CHR ''.'' then dropWhile is_digit r else r1)
      in if ip = [] \<and> fp = [] then None
         else map_option (\<lambda>ex. decimal s (digits_val (ip @ fp)) (ex - int (length fp)))
                (exponent r2))"

definition signed_float :: "bool \<Rightarrow> string \<Rightarrow> pyfloat option" where
  "signed_float s u =
     (if map lower u = ''inf'' \<or> map lower u = ''infinity'' then Some (Infinity s)
      else if map lower u = ''nan'' then Some NaN
      else numeral_float s u)"

definition py_float :: "string \<Rightarrow> pyfloat option" where
  "py_float t =
     (case no_underscores (CHR 0x00) (strip t) of
        None \<Rightarrow> None
      | Some u \<Rightarrow>
          (case u of
             [] \<Rightarrow> None
           | c # cs \<Rightarrow>
               if c = CHR ''-'' then signed_float True cs
               else if c = CHR ''+'' then signed_float False cs
               else signed_float False u))"

definition zero_float :: pyfloat where
  "zero_float = Finite False 0 (- 1074)"

text \<open>\<^verbatim>\<open>float(text or 0.0)\<close>\<close>

definition float_or_zero :: "string \<Rightarrow> exn + pyfloat" where
  "float_or_zero t =
     (if t = [] then Inr zero_float
      else case py_float t of None \<Rightarrow> Inl ValueError | Some x \<Rightarrow> Inr x)"


text \<open>
  \<^verbatim>\<open>str(e)\<close> in a message popup: the model writes the kind of the exception, not the
  interpreter's wording.
\<close>

definition str_exn :: "exn \<Rightarrow> string" where
  "str_exn e =
     (case e of
        ValueError \<Rightarrow> ''ValueError''
      | OverflowError \<Rightarrow> ''OverflowError''
      | IndexError \<Rightarrow> ''IndexError''
      | StorageError \<Rightarrow> ''sqlite3.Error'')"

section \<open>The SQLite database\<close>

text \<open>
  The tables \<^verbatim>\<open>records\<close>, \<^verbatim>\<open>remarks\<close> and \<^verbatim>\<open>settings\<close>. The columns \<^verbatim>\<open>records.id\<close>,
  \<^verbatim>\<open>records.empty_received\<close>, \<^verbatim>\<open>remarks.id\<close>, \<^verbatim>\<open>remarks.record_id\<close> and \<^verbatim>\<open>remarks.seq\<close>
  are the fields \<open>rec_id\<close>, \<open>rec_empty_received\<close>, \<open>remark_id\<close>, \<open>rem_record_id\<close> and
  \<open>rem_seq\<close>; the other fields carry their column's name. A column that can hold NULL is
  an option.
\<close>

record records_row =
  rec_id :: int
  employee :: string
  total_cyl :: int
  rec_empty_received :: "int option"
  online_pay :: int
  paytm_pay :: int
  partial_amt :: "pyfloat option"
  final_amt :: "pyfloat option"
  collected_amt :: "pyfloat option"
  date_time :: string

record remarks_row =
  remark_id :: int
  rem_record_id :: int
  rem_seq :: int
  remark_type :: string
  consumer_name :: string
  created_at :: string

text \<open>
  The module opens one connection and one cursor and every screen uses them. The
  connection runs in the sqlite3 module's default mode: an INSERT or UPDATE opens a
  transaction, \<^verbatim>\<open>conn.commit()\<close> ends it, and the connection reads its own uncommitted
  rows. So \<open>records\<close> and \<open>remarks\<close> are the tables as the connection sees them and
  \<open>committed_records\<close> and \<open>committed_remarks\<close> what is durable. \<open>records_seq\<close> and
  \<open>remarks_seq\<close> are the AUTOINCREMENT counters. \<open>faults\<close> schedules storage failures:
  each statement and each commit takes the head of the list and raises when it is True;
  on the empty list nothing fails.
\<close>

record database =
  records :: "records_row list"
  remarks :: "remarks_row list"
  settings :: "(string \<times> string) list"
  records_seq :: int
  remarks_seq :: int
  committed_records :: "records_row list"
  committed_remarks :: "remarks_row list"
  faults :: "bool list"

definition run_statement :: "database \<Rightarrow> bool \<times> database" where
  "run_statement d = (case faults d of [] \<Rightarrow> (False, d) | f # fs \<Rightarrow> (f, d\<lparr>faults := fs\<rparr>))"

text \<open>An int is bound as a 64-bit integer (OverflowError otherwise); a NaN is stored as NULL.\<close>

definition sql_int :: "int \<Rightarrow> bool" where
  "sql_int n = (- (2 ^ 63) \<le> n \<and> n < 2 ^ 63)"

definition sql_real :: "pyfloat \<Rightarrow> pyfloat option" where
  "sql_real x = (if x = NaN then None else Some x)"

definition commit :: "database \<Rightarrow> (exn + unit) \<times> database" where
  "commit d =
     (let (failed, d') = run_statement d
      in if failed then (Inl StorageError, d')
         else (Inr (), d'\<lparr>committed_records := records d', committed_remarks := remarks d'\<rparr>))"

text \<open>\<^verbatim>\<open>SELECT value FROM settings WHERE key=?\<close> with \<^verbatim>\<open>r[0] if r else default\<close>\<close>

definition get_setting :: "string \<Rightarrow> string \<Rightarrow> database \<Rightarrow> (exn + string) \<times> database" where
  "get_setting k dflt d =
     (let (failed, d') = run_statement d
      in if failed then (Inl StorageError, d')
         else (Inr (case map_of (settings d') k of None \<Rightarrow> dflt | Some v \<Rightarrow> v), d'))"

definition get_price :: "database \<Rightarrow> (exn + pyfloat) \<times> database" where
  "get_price d =
     (case get_setting ''cylinder_price'' ''877.5'' d of
        (Inl e, d') \<Rightarrow> (Inl e, d')
      | (Inr t, d') \<Rightarrow>
          (case py_float t of None \<Rightarrow> (Inl ValueError, d') | Some x \<Rightarrow> (Inr x, d')))"

text \<open>
  \<^verbatim>\<open>INSERT INTO records (...) VALUES (?, ?, ?, ?, ?, ?, ?, ?, ?)\<close>: the new id is one more
  than the largest id the table has held; the result is \<^verbatim>\<open>cur.lastrowid\<close>.
\<close>

definition insert_record :: "records_row \<Rightarrow> database \<Rightarrow> (exn + int) \<times> database" where
  "insert_record r d =
     (if \<not> (sql_int (total_cyl r) \<and> list_all sql_int (case rec_empty_received r of None \<Rightarrow> [] | Some n \<Rightarrow> [n])
             \<and> sql_int (online_pay r) \<and> sql_int (paytm_pay r))
      then (Inl OverflowError, d)
      else
        let (failed, d') = run_statement d
        in if failed then (Inl StorageError, d')
           else
             let i = fold max (map rec_id (records d')) (records_seq d') + 1
             in (Inr i, d'\<lparr>records := records d' @ [r\<lparr>rec_id := i\<rparr>], records_seq := i\<rparr>))"

text \<open>\<^verbatim>\<open>SELECT empty_received FROM records WHERE id=?\<close> and \<^verbatim>\<open>fetchone()\<close>\<close>

definition select_empty_received :: "int \<Rightarrow> database \<Rightarrow> (exn + int option option) \<times> database" where
  "select_empty_received i d =
     (let (failed, d') = run_statement d
      in if failed then (Inl StorageError, d')
         else (Inr (map_option rec_empty_received (find (\<lambda>r. rec_id r = i) (records d'))), d'))"

text \<open>\<^verbatim>\<open>UPDATE records SET empty_received=? WHERE id=?\<close>\<close>

definition update_empty_received :: "int \<Rightarrow> int \<Rightarrow> database \<Rightarrow> (exn + unit) \<times> database" where
  "update_empty_received new_empty i d =
     (if \<not> (sql_int new_empty \<and> sql_int i) then (Inl OverflowError, d)
      else
        let (failed, d') = run_statement d
        in if failed then (Inl StorageError, d')
           else (Inr (),
                 d'\<lparr>records :=
                      map (\<lambda>r. if rec_id r = i then r\<lparr>rec_empty_received := Some new_empty\<rparr> else r)
                        (records d')\<rparr>))"

text \<open>\<^verbatim>\<open>INSERT INTO remarks (record_id, seq, remark_type, consumer_name, created_at)\<close>\<close>

definition insert_remark :: "remarks_row \<Rightarrow> database \<Rightarrow> (exn + unit) \<times> database" where
  "insert_remark m d =
     (if \<not> (sql_int (rem_record_id m) \<and> sql_int (rem_seq m)) then (Inl OverflowError, d)
      else
        let (failed, d') = run_statement d
        in if failed then (Inl StorageError, d')
           else
             let i = fold max (map remark_id (remarks d')) (remarks_seq d') + 1
             in (Inr (), d'\<lparr>remarks := remarks d' @ [m\<lparr>remark_id := i\<rparr>], remarks_seq := i\<rparr>))"

text \<open>
  SQLite's LIKE: \<^verbatim>\<open>%\<close> matches any run of characters, \<^verbatim>\<open>_\<close> any one character, and
  ASCII letters match in either case.
\<close>

fun sql_like :: "string \<Rightarrow> string \<Rightarrow> bool" where
  "sql_like [] s = (s = [])"
| "sql_like (p # ps) s =
     (if p = CHR ''%'' then list_ex (\<lambda>t. sql_like ps t) (suffixes s)
      else (case s of
              [] \<Rightarrow> False
            | c # cs \<Rightarrow> (p = CHR ''_'' \<or> lower p = lower c) \<and> sql_like ps cs))"

text \<open>\<^verbatim>\<open>SELECT ... FROM records WHERE date_time LIKE ? ORDER BY id\<close>\<close>

definition select_records_like :: "string \<Rightarrow> database \<Rightarrow> (exn + records_row list) \<times> database" where
  "select_records_like pat d =
     (let (failed, d') = run_statement d
      in if failed then (Inl StorageError, d')
         else (Inr (sort_key rec_id (filter (\<lambda>r. sql_like pat (date_time r)) (records d'))), d'))"

text \<open>\<^verbatim>\<open>SELECT remark_type, consumer_name FROM remarks WHERE record_id=? ORDER BY seq\<close>\<close>

definition select_remarks :: "int \<Rightarrow> database \<Rightarrow> (exn + remarks_row list) \<times> database" where
  "select_remarks i d =
     (let (failed, d') = run_statement d
      in if failed then (Inl StorageError, d')
         else (Inr (sort_key rem_seq (filter (\<lambda>m. rem_record_id m = i) (remarks d'))), d'))"

section \<open>NewEntryScreen\<close>

text \<open>
  The text of each input widget, the spinner's text, \<^verbatim>\<open>self.final_amount\<close> and the
  message popups the screen has opened. The label that displays the amount is left out.
\<close>

record new_entry_screen =
  final_amount :: pyfloat
  emp_spinner :: string
  total_input :: string
  empty_input :: string
  online_input :: string
  paytm_input :: string
  partial_input :: string
  collected_input :: string
  entry_alerts :: "alert list"

definition show_popup :: "string \<Rightarrow> string \<Rightarrow> new_entry_screen \<Rightarrow> new_entry_screen" where
  "show_popup title msg scr = scr\<lparr>entry_alerts := entry_alerts scr @ [Alert title msg]\<rparr>"

text \<open>
  The body of the \<^verbatim>\<open>try\<close> in \<^verbatim>\<open>calculate\<close>: \<open>Rejected\<close> is the early return after the
  "Input error" popup, \<open>Amount final\<close> the value assigned to \<^verbatim>\<open>self.final_amount\<close>.
\<close>

datatype calc = Rejected | Amount pyfloat

definition try_calculate :: "new_entry_screen \<Rightarrow> database \<Rightarrow> (exn + calc) \<times> database" where
  "try_calculate scr d =
     (case int_or (total_input scr) 0 of
        Inl e \<Rightarrow> (Inl e, d)
      | Inr total' \<Rightarrow>
     (case int_or (online_input scr) 0 of
        Inl e \<Rightarrow> (Inl e, d)
      | Inr online \<Rightarrow>
     (case int_or (paytm_input scr) 0 of
        Inl e \<Rightarrow> (Inl e, d)
      | Inr paytm \<Rightarrow>
     (case float_or_zero (partial_input scr) of
        Inl e \<Rightarrow> (Inl e, d)
      | Inr partial \<Rightarrow>
          if online + paytm > total' then (Inr Rejected, d)
          else
            let cash_cylinders = total' - online - paytm
            in (case get_price d of
                  (Inl e, d') \<Rightarrow> (Inl e, d')
                | (Inr price, d') \<Rightarrow>
                    (case float_of_int cash_cylinders of
                       Inl e \<Rightarrow> (Inl e, d')
                     | Inr c \<Rightarrow>
                         let cash_amount = fmul c price;
                             final = py_round (fadd cash_amount partial) 2
                         in (Inr (Amount final), d')))))))"

definition calculate :: "new_entry_screen \<Rightarrow> database \<Rightarrow> new_entry_screen \<times> database" where
  "calculate scr d =
     (case try_calculate scr d of
        (Inl e, d') \<Rightarrow> (show_popup ''Error'' (''Invalid input. '' @ str_exn e) scr, d')
      | (Inr Rejected, d') \<Rightarrow>
          (show_popup ''Input error''
             ''Online + PayTM full count cannot exceed total deliveries.'' scr, d')
      | (Inr (Amount final), d') \<Rightarrow> (scr\<lparr>final_amount := final\<rparr>, d'))"

section \<open>ReconcilePopup\<close>

text \<open>
  One entry of \<^verbatim>\<open>self.steps\<close>: the dict with the keys \<^verbatim>\<open>seq\<close>, \<^verbatim>\<open>mode\<close>, \<^verbatim>\<open>options\<close>,
  \<^verbatim>\<open>selected\<close> and \<^verbatim>\<open>consumer\<close>.
\<close>

record step =
  seq :: int
  mode :: string
  options :: "string list"
  selected :: "string option"
  consumer :: string

text \<open>
  The popup's attributes, the text of its widgets (\<open>empty_edit\<close>, \<open>drop_text\<close> and
  \<open>drop_values\<close> for the spinner \<^verbatim>\<open>self.drop\<close>, \<open>name_input\<close>, \<open>step_title\<close>), whether
  it is open, and the message popups it has opened.
\<close>

record reconcile_popup =
  record_id :: int
  delivered :: int
  empty_received :: int
  diff :: int
  steps :: "step list"
  current_index :: int
  empty_edit :: string
  drop_text :: string
  drop_values :: "string list"
  name_input :: string
  step_title :: string
  is_open :: bool
  alerts :: "alert list"

text \<open>\<^verbatim>\<open>ReconcilePopup.__init__\<close>; \<^verbatim>\<open>int(n or 0)\<close> is \<open>n\<close> for an int \<open>n\<close>.\<close>

definition ReconcilePopup :: "int \<Rightarrow> int \<Rightarrow> int \<Rightarrow> reconcile_popup" where
  "ReconcilePopup rid delivered_count empty_received_count =
     \<lparr>record_id = rid,
      delivered = delivered_count,
      empty_received = empty_received_count,
      diff = empty_received_count - delivered_count,
      steps = [],
      current_index = 0,
      empty_edit = str_int empty_received_count,
      drop_text = [],
      drop_values = [],
      name_input = [],
      step_title = [],
      is_open = False,
      alerts = []\<rparr>"

definition popup_open :: "reconcile_popup \<Rightarrow> reconcile_popup" where
  "popup_open p = p\<lparr>is_open := True\<rparr>"

definition dismiss :: "reconcile_popup \<Rightarrow> reconcile_popup" where
  "dismiss p = p\<lparr>is_open := False\<rparr>"

definition alert :: "string \<Rightarrow> string \<Rightarrow> reconcile_popup \<Rightarrow> reconcile_popup" where
  "alert title msg p = p\<lparr>alerts := alerts p @ [Alert title msg]\<rparr>"

definition load_step :: "int \<Rightarrow> reconcile_popup \<Rightarrow> reconcile_popup" where
  "load_step idx p =
     (if idx < 0 \<or> idx \<ge> int (length (steps p)) then p
      else
        let s = steps p ! nat idx
        in p\<lparr>drop_values := options s,
             drop_text := (case selected s of
                             None \<Rightarrow> ''Choose reason''
                           | Some r \<Rightarrow> if r = [] then ''Choose reason'' else r),
             name_input := consumer s,
             step_title := ''Entry '' @ str_int (idx + 1) @ '' of '' @ str_int (int (length (steps p)))
                           @ '' - '' @ (if mode s = ''missing'' then ''missing'' else ''extra'')\<rparr>)"

text \<open>
  \<^verbatim>\<open>open_steps_ui\<close> builds the spinner from \<^verbatim>\<open>self.steps[0]\<close> (IndexError on an empty
  list), binds the four buttons and loads the first step.
\<close>

definition open_steps_ui :: "reconcile_popup \<Rightarrow> exn + reconcile_popup" where
  "open_steps_ui p =
     (case py_index (steps p) 0 of
        Inl e \<Rightarrow> Inl e
      | Inr s0 \<Rightarrow>
          Inr (load_step 0
                 (p\<lparr>step_title := ''Enter details for each ''
                        @ (if diff p < 0 then ''missing'' else ''extra'')
                        @ '' cylinder (mandatory selection)'',
                    drop_text := ''Choose reason'',
                    drop_values := options s0,
                    name_input := [],
                    current_index := 0\<rparr>)))"

definition missing_step :: "int \<Rightarrow> step" where
  "missing_step i =
     \<lparr>seq = i + 1, mode = ''missing'', options = [''NC'', ''DBC'', ''TV'', ''Empty baki''],
      selected = None, consumer = []\<rparr>"

definition extra_step :: "int \<Rightarrow> step" where
  "extra_step i =
     \<lparr>seq = i + 1, mode = ''extra'',
      options = [''TV'', ''Empty Return'', ''NC'', ''DBC'', ''Empty baki''],
      selected = None, consumer = []\<rparr>"

text \<open>The em dash of the "Info" message, as UTF-8.\<close>

definition em_dash :: string where
  "em_dash = [CHR 0xE2, CHR 0x80, CHR 0x94]"

text \<open>The two statements of the second \<^verbatim>\<open>try\<close> of \<^verbatim>\<open>update_and_prepare\<close>.\<close>

definition store_empty_received :: "int \<Rightarrow> int \<Rightarrow> database \<Rightarrow> (exn + unit) \<times> database" where
  "store_empty_received new_empty i d =
     (case update_empty_received new_empty i d of
        (Inl e, d') \<Rightarrow> (Inl e, d')
      | (Inr u, d') \<Rightarrow> commit d')"

definition update_and_prepare ::
  "reconcile_popup \<Rightarrow> database \<Rightarrow> exn + reconcile_popup \<times> database" where
  "update_and_prepare p d =
     (case int_or (empty_edit p) 0 of
        Inl e \<Rightarrow> Inr (alert ''Error'' ''Invalid empties count'' p, d)
      | Inr new_empty \<Rightarrow>
          (case store_empty_received new_empty (record_id p) d of
             (Inl e, d') \<Rightarrow> Inr (alert ''DB Error'' (str_exn e) p, d')
           | (Inr u, d') \<Rightarrow>
               let p1 = p\<lparr>empty_received := new_empty,
                          diff := new_empty - delivered p,
                          steps := []\<rparr>
               in if diff p1 = 0 then
                    Inr (dismiss (alert ''Info''
                           (''Empty count equals delivered '' @ em_dash @ '' no remarks required.'')
                           p1), d')
                  else if diff p1 < 0 then
                    map_sum id (\<lambda>q. (q, d'))
                      (open_steps_ui (p1\<lparr>steps := map missing_step [0..\<bar>diff p1\<bar> - 1]\<rparr>))
                  else
                    map_sum id (\<lambda>q. (q, d'))
                      (open_steps_ui (p1\<lparr>steps := map extra_step [0..diff p1 - 1]\<rparr>))))"

definition save_current :: "reconcile_popup \<Rightarrow> exn + reconcile_popup" where
  "save_current p =
     (case py_index (steps p) (current_index p) of
        Inl e \<Rightarrow> Inl e
      | Inr s \<Rightarrow>
          let i = (if current_index p < 0 then int (length (steps p)) + current_index p
                   else current_index p);
              sel = (if drop_text p \<noteq> ''Choose reason'' then Some (drop_text p) else None)
          in Inr (p\<lparr>steps := (steps p)[nat i := s\<lparr>selected := sel,
                                                    consumer := strip (name_input p)\<rparr>]\<rparr>))"

text \<open>\<^verbatim>\<open>not s.get("selected")\<close>: nothing selected, or the empty text.\<close>

definition unselected :: "step \<Rightarrow> bool" where
  "unselected s = (case selected s of None \<Rightarrow> True | Some r \<Rightarrow> r = [])"

definition go_next :: "reconcile_popup \<Rightarrow> exn + reconcile_popup" where
  "go_next p =
     (case save_current p of
        Inl e \<Rightarrow> Inl e
      | Inr q \<Rightarrow>
          (case py_index (steps q) (current_index q) of
             Inl e \<Rightarrow> Inl e
           | Inr s \<Rightarrow>
               if unselected s then
                 Inr (alert ''Required'' ''Please select a reason before proceeding.'' q)
               else
                 let i = min (current_index q + 1) (int (length (steps q)) - 1)
                 in Inr (load_step i (q\<lparr>current_index := i\<rparr>))))"

definition go_prev :: "reconcile_popup \<Rightarrow> exn + reconcile_popup" where
  "go_prev p =
     (case save_current p of
        Inl e \<Rightarrow> Inl e
      | Inr q \<Rightarrow>
          let i = max (current_index q - 1) 0
          in Inr (load_step i (q\<lparr>current_index := i\<rparr>)))"

text \<open>One pass of the second loop of \<^verbatim>\<open>save_all\<close>: an INSERT per step, in list order.\<close>

definition remark_of :: "int \<Rightarrow> string \<Rightarrow> step \<Rightarrow> remarks_row" where
  "remark_of rid now s =
     \<lparr>remark_id = 0,
      rem_record_id = rid,
      rem_seq = seq s,
      remark_type = (case selected s of None \<Rightarrow> [] | Some r \<Rightarrow> r),
      consumer_name = consumer s,
      created_at = now\<rparr>"

fun insert_steps :: "int \<Rightarrow> string \<Rightarrow> step list \<Rightarrow> database \<Rightarrow> (exn + unit) \<times> database" where
  "insert_steps rid now [] d = (Inr (), d)"
| "insert_steps rid now (s # ss) d =
     (case insert_remark (remark_of rid now s) d of
        (Inl e, d') \<Rightarrow> (Inl e, d')
      | (Inr u, d') \<Rightarrow> insert_steps rid now ss d')"

definition persist_steps :: "int \<Rightarrow> string \<Rightarrow> step list \<Rightarrow> database \<Rightarrow> (exn + unit) \<times> database" where
  "persist_steps rid now ss d =
     (case insert_steps rid now ss d of
        (Inl e, d') \<Rightarrow> (Inl e, d')
      | (Inr u, d') \<Rightarrow> commit d')"

text \<open>
  \<^verbatim>\<open>save_all\<close>; \<open>now\<close> is the text of \<^verbatim>\<open>datetime.now()\<close>, taken as the same for every row
  of the batch.
\<close>

definition save_all ::
  "string \<Rightarrow> reconcile_popup \<Rightarrow> database \<Rightarrow> exn + reconcile_popup \<times> database" where
  "save_all now p d =
     (case save_current p of
        Inl e \<Rightarrow> Inl e
      | Inr q \<Rightarrow>
          if list_ex unselected (steps q) then
            Inr (alert ''Required'' ''All entries must have a reason selected before saving.'' q, d)
          else
            (case persist_steps (record_id q) now (steps q) d of
               (Inl e, d') \<Rightarrow> Inr (alert ''Error'' (str_exn e) q, d')
             | (Inr u, d') \<Rightarrow> Inr (dismiss (alert ''Saved'' ''Reconciliation saved.'' q), d')))"

text \<open>
  The buttons \<^verbatim>\<open>open_steps_ui\<close> binds, and what the operator can do between two presses:
  pick one of the spinner's values, or type a consumer name.
\<close>

datatype button = Previous | Next | Cancel | Save_and_Close

definition press ::
  "string \<Rightarrow> button \<Rightarrow> reconcile_popup \<times> database \<Rightarrow> exn + reconcile_popup \<times> database" where
  "press now b w =
     (case b of
        Previous \<Rightarrow> map_sum id (\<lambda>q. (q, snd w)) (go_prev (fst w))
      | Next \<Rightarrow> map_sum id (\<lambda>q. (q, snd w)) (go_next (fst w))
      | Cancel \<Rightarrow> Inr (dismiss (fst w), snd w)
      | Save_and_Close \<Rightarrow> save_all now (fst w) (snd w))"

datatype event = Choose string | Enter_name string | Press button

definition handle ::
  "string \<Rightarrow> event \<Rightarrow> reconcile_popup \<times> database \<Rightarrow> exn + reconcile_popup \<times> database" where
  "handle now ev w =
     (case ev of
        Choose r \<Rightarrow> Inr (if r \<in> set (drop_values (fst w)) then (fst w)\<lparr>drop_text := r\<rparr> else fst w, snd w)
      | Enter_name n \<Rightarrow> Inr ((fst w)\<lparr>name_input := n\<rparr>, snd w)
      | Press b \<Rightarrow> press now b w)"

fun run ::
  "string \<Rightarrow> event list \<Rightarrow> reconcile_popup \<times> database \<Rightarrow> exn + reconcile_popup \<times> database" where
  "run now [] w = Inr w"
| "run now (ev # evs) w = (case handle now ev w of Inl e \<Rightarrow> Inl e | Inr w' \<Rightarrow> run now evs w')"

section \<open>NewEntryScreen.on_submit\<close>

text \<open>
  The \<^verbatim>\<open>try\<close> around the INSERT: the values are computed left to right, then the row is
  inserted and committed.
\<close>

definition store_record ::
  "string \<Rightarrow> new_entry_screen \<Rightarrow> string \<Rightarrow> int \<Rightarrow> int \<Rightarrow> pyfloat \<Rightarrow> pyfloat \<Rightarrow> database
   \<Rightarrow> (exn + int) \<times> database" where
  "store_record now scr emp delivered' pre_empty final collected d =
     (case int_or (online_input scr) 0 of
        Inl e \<Rightarrow> (Inl e, d)
      | Inr online \<Rightarrow>
     (case int_or (paytm_input scr) 0 of
        Inl e \<Rightarrow> (Inl e, d)
      | Inr paytm \<Rightarrow>
     (case float_or_zero (partial_input scr) of
        Inl e \<Rightarrow> (Inl e, d)
      | Inr partial \<Rightarrow>
     (case insert_record
             \<lparr>rec_id = 0, employee = emp, total_cyl = delivered',
              rec_empty_received = Some pre_empty, online_pay = online, paytm_pay = paytm,
              partial_amt = sql_real partial, final_amt = sql_real final,
              collected_amt = sql_real collected, date_time = now\<rparr> d of
        (Inl e, d') \<Rightarrow> (Inl e, d')
      | (Inr i, d') \<Rightarrow>
          (case commit d' of
             (Inl e, d'') \<Rightarrow> (Inl e, d'')
           | (Inr u, d'') \<Rightarrow> (Inr i, d''))))))"

text \<open>
  \<^verbatim>\<open>on_submit\<close>. The result is the exception that leaves the handler, or the
  ReconcilePopup it opened (None after the "DB Error" popup), with the screen and the
  database as the handler leaves them.
\<close>

definition on_submit ::
  "string \<Rightarrow> new_entry_screen \<Rightarrow> database
   \<Rightarrow> (exn + reconcile_popup option) \<times> new_entry_screen \<times> database" where
  "on_submit now scr0 d0 =
     (let (scr, d) = calculate scr0 d0;
          collected = (case float_or_zero (collected_input scr) of Inl e \<Rightarrow> zero_float | Inr x \<Rightarrow> x);
          final = final_amount scr;
          emp = (if emp_spinner scr \<noteq> ''Choose'' then emp_spinner scr else [])
      in (case int_or (total_input scr) 0 of
            Inl e \<Rightarrow> (Inl e, scr, d)
          | Inr delivered' \<Rightarrow>
              let pre_empty = (case int_or (empty_input scr) delivered' of
                                 Inl e \<Rightarrow> delivered'
                               | Inr n \<Rightarrow> n)
              in (case store_record now scr emp delivered' pre_empty final collected d of
                    (Inl e, d') \<Rightarrow> (Inr None, show_popup ''DB Error'' (str_exn e) scr, d')
                  | (Inr i, d') \<Rightarrow>
                      (case select_empty_received i d' of
                         (Inl e, d'') \<Rightarrow> (Inl e, scr, d'')
                       | (Inr rr, d'') \<Rightarrow>
                           let stored_empty = (case rr of
                                                 None \<Rightarrow> delivered'
                                               | Some None \<Rightarrow> delivered'
                                               | Some (Some n) \<Rightarrow> n)
                           in (Inr (Some (popup_open (ReconcilePopup i delivered' stored_empty))),
                               scr, d'')))))"

section \<open>ViewByDateScreen.load_records\<close>

text \<open>
  The screen's table: one row per record with its serial number, the record and the
  remarks text. The totals under the table are sums of the columns and are left out.
\<close>

record table_row =
  sr :: int
  shown :: records_row
  remarks_text :: string

datatype view = No_records | Table "table_row list"

definition remark_entry :: "remarks_row \<Rightarrow> string" where
  "remark_entry m =
     (if consumer_name m \<noteq> [] \<and> strip (consumer_name m) \<noteq> []
      then remark_type m @ '': '' @ consumer_name m
      else remark_type m)"

fun table_rows ::
  "int \<Rightarrow> records_row list \<Rightarrow> database \<Rightarrow> (exn + table_row list) \<times> database" where
  "table_rows idx [] d = (Inr [], d)"
| "table_rows idx (r # rs) d =
     (case select_remarks (rec_id r) d of
        (Inl e, d') \<Rightarrow> (Inl e, d')
      | (Inr rem_rows, d') \<Rightarrow>
          (case table_rows (idx + 1) rs d' of
             (Inl e, d'') \<Rightarrow> (Inl e, d'')
           | (Inr rows, d'') \<Rightarrow>
               (Inr (\<lparr>sr = idx, shown = r,
                      remarks_text = join '', '' (map remark_entry rem_rows)\<rparr> # rows), d'')))"

definition load_records :: "string \<Rightarrow> database \<Rightarrow> (exn + view) \<times> database" where
  "load_records yyyy_mm_dd d =
     (case select_records_like (yyyy_mm_dd @ ''%'') d of
        (Inl e, d') \<Rightarrow> (Inl e, d')
      | (Inr rows, d') \<Rightarrow>
          if rows = [] then (Inr No_records, d')
          else (case table_rows 1 rows d' of
                  (Inl e, d'') \<Rightarrow> (Inl e, d'')
                | (Inr trs, d'') \<Rightarrow> (Inr (Table trs), d'')))"

text \<open>
  A popup and a database are tidy when no consumer name in the steps or in \<^verbatim>\<open>remarks\<close>
  has whitespace at either end.
\<close>

definition tidy :: "reconcile_popup \<times> database \<Rightarrow> bool" where
  "tidy w = (list_all (\<lambda>s. strip (consumer s) = consumer s) (steps (fst w))
             \<and> list_all (\<lambda>m. strip (consumer_name m) = consumer_name m) (remarks (snd w)))"

text \<open>
  The remark summary in the words of the specification: per slot the reason code, then a
  colon and the consumer name unless the name is empty; the program separates the slots
  by a comma and a space.
\<close>

definition remark_summary :: "remarks_row list \<Rightarrow> string" where
  "remark_summary slots =
     join '', ''
       (map (\<lambda>m. if consumer_name m = [] then remark_type m
                 else remark_type m @ '': '' @ consumer_name m) slots)"


section \<open>Example states\<close>

text \<open>
  A database holding one record (10 cylinders delivered, 7 empties received) and no
  remarks, the popup \<^verbatim>\<open>on_submit\<close> opens for that record, and the same popup once its
  three "missing" steps are on display.
\<close>

definition example_record :: records_row where
  "example_record =
     \<lparr>rec_id = 1, employee = ''ABC Employee'', total_cyl = 10, rec_empty_received = Some 7,
      online_pay = 0, paytm_pay = 0, partial_amt = Some zero_float,
      final_amt = Some (Finite False 4824107266867200 (- 39)),
      collected_amt = Some (Finite False 4824107266867200 (- 39)),
      date_time = ''2024-01-05 10:00:00''\<rparr>"

definition example_db :: database where
  "example_db =
     \<lparr>records = [example_record], remarks = [],
      settings = [(''cylinder_price'', ''877.5'')],
      records_seq = 1, remarks_seq = 0,
      committed_records = [example_record], committed_remarks = [],
      faults = []\<rparr>"

definition example_popup :: reconcile_popup where
  "example_popup = popup_open (ReconcilePopup 1 10 7)"


definition three_missing :: reconcile_popup where
  "three_missing =
     example_popup
       \<lparr>steps := map missing_step [0, 1, 2],
        drop_text := ''Choose reason'',
        drop_values := [''NC'', ''DBC'', ''TV'', ''Empty baki''],
        step_title := ''Entry 1 of 3 - missing''\<rparr>"

text \<open>
  The same popup on its third step with a reason chosen for every step, and a database
  whose second statement from now fails.
\<close>

definition three_chosen :: reconcile_popup where
  "three_chosen =
     example_popup
       \<lparr>steps := [(missing_step 0)\<lparr>selected := Some ''NC'', consumer := ''Asha''\<rparr>,
                  (missing_step 1)\<lparr>selected := Some ''TV''\<rparr>,
                  missing_step 2],
        current_index := 2,
        drop_text := ''DBC'',
        drop_values := [''NC'', ''DBC'', ''TV'', ''Empty baki''],
        name_input := '' Ravi '',
        step_title := ''Entry 3 of 3 - missing''\<rparr>"




definition overpaid_entry :: new_entry_screen where
  "overpaid_entry =
     \<lparr>final_amount = zero_float, emp_spinner = ''ABC Employee'', total_input = ''1'',
      empty_input = ''0'', online_input = ''2'', paytm_input = ''0'', partial_input = ''0'',
      collected_input = [], entry_alerts = []\<rparr>"

text \<open>
  A database with records on two days; the first record has three remarks, stored out
  of seq order.
\<close>

definition report_db :: database where
  "report_db =
     example_db
       \<lparr>records :=
          [example_record\<lparr>rec_id := 3, date_time := ''2024-01-05 17:30:00''\<rparr>,
           example_record\<lparr>rec_id := 2, date_time := ''2024-01-06 09:00:00''\<rparr>,
           example_record],
        remarks :=
          [\<lparr>remark_id = 1, rem_record_id = 1, rem_seq = 2, remark_type = ''TV'',
            consumer_name = [], created_at = ''2024-01-05 10:05:00''\<rparr>,
           \<lparr>remark_id = 2, rem_record_id = 1, rem_seq = 3, remark_type = ''DBC'',
            consumer_name = ''Ravi'', created_at = ''2024-01-05 10:05:00''\<rparr>,
           \<lparr>remark_id = 3, rem_record_id = 2, rem_seq = 1, remark_type = ''Empty Return'',
            consumer_name = ''Mina'', created_at = ''2024-01-06 09:01:00''\<rparr>,
           \<lparr>remark_id = 4, rem_record_id = 1, rem_seq = 1, remark_type = ''NC'',
            consumer_name = ''Asha'', created_at = ''2024-01-05 10:05:00''\<rparr>]\<rparr>"




section \<open>Basic facts\<close>

lemma run_statement_no_faults: "faults d = [] \<Longrightarrow> run_statement d = (False, d)"
  by (simp add: run_statement_def)

lemma steps_load_step [simp]: "steps (load_step i p) = steps p"
  by (simp add: load_step_def Let_def)

lemma current_index_load_step [simp]: "current_index (load_step i p) = current_index p"
  by (simp add: load_step_def Let_def)

lemma is_open_load_step [simp]: "is_open (load_step i p) = is_open p"
  by (simp add: load_step_def Let_def)

lemma alerts_load_step [simp]: "alerts (load_step i p) = alerts p"
  by (simp add: load_step_def Let_def)






lemma store_empty_received_remarks:
  "store_empty_received E i d = (r, d') \<Longrightarrow> remarks d' = remarks d"
  by (auto simp: store_empty_received_def update_empty_received_def commit_def run_statement_def
      Let_def split: if_splits list.splits prod.splits sum.splits)

lemma save_current_in_range:
  assumes "0 \<le> current_index p" "current_index p < int (length (steps p))"
  shows "save_current p =
           Inr (p\<lparr>steps := (steps p)[nat (current_index p) :=
                  (steps p ! nat (current_index p))
                    \<lparr>selected := (if drop_text p \<noteq> ''Choose reason'' then Some (drop_text p) else None),
                     consumer := strip (name_input p)\<rparr>]\<rparr>)"
  using assms by (simp add: save_current_def py_index_def Let_def)

lemma save_current_frame:
  assumes "save_current p = Inr q"
  shows "current_index q = current_index p" "length (steps q) = length (steps p)"
    "alerts q = alerts p" "is_open q = is_open p" "record_id q = record_id p"
    "map seq (steps q) = map seq (steps p)"
  using assms
  by (auto simp: save_current_def py_index_def Let_def map_update list_update_same_conv
      split: sum.splits if_splits)

text \<open>
  With a healthy storage and values that fit 64 bits, the UPDATE of
  \<^verbatim>\<open>update_and_prepare\<close> and its commit succeed.
\<close>

lemma store_empty_received_healthy:
  assumes "faults d = []" "sql_int E" "sql_int i"
  shows "\<exists>d'. store_empty_received E i d = (Inr (), d') \<and> faults d' = []"
  using assms
  by (simp add: store_empty_received_def update_empty_received_def commit_def
      run_statement_def Let_def)

section \<open>Slot generation\<close>





section \<open>Navigation between the steps\<close>

text \<open>
  C7. On a step within the list: while the spinner still shows "Choose reason", the Next
  button only opens the "Required" message and the current index stays; the Previous
  button always moves to \<open>max (i - 1) 0\<close> without a message; and neither button changes
  the database.
\<close>

theorem navigation_guard:
  assumes lo: "0 \<le> current_index p" and hi: "current_index p < int (length (steps p))"
  shows "(drop_text p = ''Choose reason'' \<longrightarrow>
            (\<exists>q. press now Next (p, d) = Inr (q, d)
               \<and> current_index q = current_index p
               \<and> alerts q = alerts p @ [Alert ''Required'' ''Please select a reason before proceeding.'']))
       \<and> (\<exists>q. press now Previous (p, d) = Inr (q, d)
               \<and> current_index q = max (current_index p - 1) 0
               \<and> alerts q = alerts p)
       \<and> (\<exists>q. press now Next (p, d) = Inr (q, d))"
proof -
  obtain q0 where q0: "save_current p = Inr q0"
    using save_current_in_range [OF lo hi] by simp
  note fr = save_current_frame [OF q0]
  have sel: "drop_text p = ''Choose reason'' \<Longrightarrow>
               py_index (steps q0) (current_index q0) = Inr (steps q0 ! nat (current_index p))
               \<and> unselected (steps q0 ! nat (current_index p))"
    using q0 lo hi save_current_in_range [OF lo hi]
    by (auto simp: py_index_def unselected_def)
  have idx: "\<exists>s. py_index (steps q0) (current_index q0) = Inr s"
    using fr lo hi by (simp add: py_index_def)
  have blocked: "drop_text p = ''Choose reason'' \<longrightarrow>
            (\<exists>q. press now Next (p, d) = Inr (q, d)
               \<and> current_index q = current_index p
               \<and> alerts q = alerts p @ [Alert ''Required'' ''Please select a reason before proceeding.''])"
    using q0 sel fr by (auto simp: press_def go_next_def alert_def)
  have bwd: "\<exists>q. press now Previous (p, d) = Inr (q, d)
               \<and> current_index q = max (current_index p - 1) 0
               \<and> alerts q = alerts p"
    using q0 fr by (simp add: press_def go_prev_def Let_def)
  have fwd: "\<exists>q. press now Next (p, d) = Inr (q, d)"
    using q0 idx by (auto simp: press_def go_next_def Let_def)
  show ?thesis using blocked bwd fwd by blast
qed

text \<open>On the first of three steps, nothing chosen yet.\<close>

theorem navigation_guard_witness:
  "(\<exists>q. press ''2024-01-05 10:05:00'' Next (three_missing, example_db) = Inr (q, example_db)
       \<and> current_index q = 0
       \<and> alerts q = [Alert ''Required'' ''Please select a reason before proceeding.''])
   \<and> (\<exists>q. press ''2024-01-05 10:05:00'' Previous (three_missing, example_db) = Inr (q, example_db)
       \<and> current_index q = 0 \<and> alerts q = [])"
proof -
  have lo: "0 \<le> current_index three_missing"
    by code_simp
  have hi: "current_index three_missing < int (length (steps three_missing))"
    by code_simp
  have facts: "drop_text three_missing = ''Choose reason''" "current_index three_missing = 0"
    "alerts three_missing = []"
    by code_simp+
  from navigation_guard [OF lo hi, of "''2024-01-05 10:05:00''" example_db] facts
  show ?thesis by simp
qed

text \<open>Bounds of the current index.\<close>

lemma go_next_in_bounds:
  assumes "0 \<le> current_index p" "current_index p < int (length (steps p))"
  shows "\<exists>q. go_next p = Inr q \<and> 0 \<le> current_index q
           \<and> current_index q < int (length (steps q)) \<and> map seq (steps q) = map seq (steps p)
           \<and> (current_index q = current_index p
               \<or> current_index q = min (current_index p + 1) (int (length (steps p)) - 1))"
proof -
  obtain q0 where q0: "save_current p = Inr q0"
    using save_current_in_range [OF assms] by simp
  note fr = save_current_frame [OF q0]
  obtain s where s: "py_index (steps q0) (current_index q0) = Inr s"
    using fr assms by (simp add: py_index_def)
  show ?thesis
    using q0 s fr assms by (auto simp: go_next_def alert_def Let_def)
qed

lemma go_prev_in_bounds:
  assumes "0 \<le> current_index p" "current_index p < int (length (steps p))"
  shows "\<exists>q. go_prev p = Inr q \<and> current_index q = max (current_index p - 1) 0
           \<and> map seq (steps q) = map seq (steps p)"
proof -
  obtain q0 where q0: "save_current p = Inr q0"
    using save_current_in_range [OF assms] by simp
  note fr = save_current_frame [OF q0]
  show ?thesis
    using q0 fr by (simp add: go_prev_def Let_def)
qed

lemma save_all_in_bounds:
  assumes "0 \<le> current_index p" "current_index p < int (length (steps p))"
  shows "\<exists>q d'. save_all now p d = Inr (q, d') \<and> current_index q = current_index p
           \<and> map seq (steps q) = map seq (steps p)"
proof -
  obtain q0 where q0: "save_current p = Inr q0"
    using save_current_in_range [OF assms] by simp
  note fr = save_current_frame [OF q0]
  show ?thesis
    using q0 fr by (auto simp: save_all_def alert_def dismiss_def split: prod.splits sum.splits)
qed

lemma same_seq_same_length: "map seq xs = map seq ys \<Longrightarrow> length xs = length ys"
  by (rule map_eq_imp_length_eq)

lemma handle_in_bounds:
  assumes "0 \<le> current_index p" "current_index p < int (length (steps p))"
  shows "\<exists>q d'. handle now ev (p, d) = Inr (q, d') \<and> 0 \<le> current_index q
           \<and> current_index q < int (length (steps q)) \<and> map seq (steps q) = map seq (steps p)"
proof (cases ev)
  case (Choose r)
  then show ?thesis using assms by (simp add: handle_def)
next
  case (Enter_name n)
  then show ?thesis using assms by (simp add: handle_def)
next
  case (Press b)
  show ?thesis
  proof (cases b)
    case Previous
    from go_prev_in_bounds [OF assms] obtain q where
      q: "go_prev p = Inr q" "current_index q = max (current_index p - 1) 0"
         "map seq (steps q) = map seq (steps p)"
      by blast
    from same_seq_same_length [OF q(3)] q(2) assms
    have "0 \<le> current_index q" "current_index q < int (length (steps q))"
      by linarith+
    with Press Previous q show ?thesis
      by (simp add: handle_def press_def)
  next
    case Next
    with Press go_next_in_bounds [OF assms] show ?thesis
      by (auto simp: handle_def press_def)
  next
    case Cancel
    with Press assms show ?thesis
      by (simp add: handle_def press_def dismiss_def)
  next
    case Save_and_Close
    from save_all_in_bounds [OF assms, of now d] obtain q d' where
      q: "save_all now p d = Inr (q, d')" "current_index q = current_index p"
         "map seq (steps q) = map seq (steps p)"
      by blast
    from same_seq_same_length [OF q(3)] q(2) assms
    have "0 \<le> current_index q" "current_index q < int (length (steps q))"
      by linarith+
    with Press Save_and_Close q show ?thesis
      by (simp add: handle_def press_def)
  qed
qed

lemma run_in_bounds:
  "0 \<le> current_index p \<Longrightarrow> current_index p < int (length (steps p)) \<Longrightarrow>
     \<exists>q d'. run now evs (p, d) = Inr (q, d') \<and> 0 \<le> current_index q
        \<and> current_index q < int (length (steps q)) \<and> map seq (steps q) = map seq (steps p)"
proof (induction evs arbitrary: p d)
  case Nil
  then show ?case by simp
next
  case (Cons ev evs)
  obtain q d' where step: "handle now ev (p, d) = Inr (q, d')" "0 \<le> current_index q"
      "current_index q < int (length (steps q))" "map seq (steps q) = map seq (steps p)"
    using handle_in_bounds [OF Cons.prems, of now ev d] by blast
  from Cons.IH [OF step(2,3), of d'] step(1,4) show ?case
    by auto
qed

text \<open>
  C10. From a popup whose current index is within its step list, every sequence of
  events (choosing a reason, typing a name, pressing Previous, Next, Cancel or Save)
  is handled without an exception and leaves the index within \<open>0..len - 1\<close> of a list of
  the same length with the same seq numbers; Next on the last step keeps the index
  there, Previous on the first keeps it at 0, and \<^verbatim>\<open>load_step\<close> with an index out of
  range changes nothing.
\<close>

theorem navigation_in_bounds:
  assumes lo: "0 \<le> current_index p" and hi: "current_index p < int (length (steps p))"
  shows "(\<exists>q d'. run now evs (p, d) = Inr (q, d') \<and> 0 \<le> current_index q
            \<and> current_index q < int (length (steps q)) \<and> length (steps q) = length (steps p)
            \<and> map seq (steps q) = map seq (steps p))
       \<and> (current_index p = int (length (steps p)) - 1 \<longrightarrow>
            (\<exists>q. go_next p = Inr q \<and> current_index q = int (length (steps p)) - 1))
       \<and> (current_index p = 0 \<longrightarrow> (\<exists>q. go_prev p = Inr q \<and> current_index q = 0))
       \<and> (\<forall>idx. idx < 0 \<or> int (length (steps p)) \<le> idx \<longrightarrow> load_step idx p = p)"
proof -
  from run_in_bounds [OF lo hi, of now evs d] obtain q d' where
    q: "run now evs (p, d) = Inr (q, d')" "0 \<le> current_index q"
       "current_index q < int (length (steps q))" "map seq (steps q) = map seq (steps p)"
    by blast
  from q same_seq_same_length [OF q(4)]
  have a: "\<exists>q d'. run now evs (p, d) = Inr (q, d') \<and> 0 \<le> current_index q
            \<and> current_index q < int (length (steps q)) \<and> length (steps q) = length (steps p)
            \<and> map seq (steps q) = map seq (steps p)"
    by blast
  have b: "current_index p = int (length (steps p)) - 1 \<longrightarrow>
            (\<exists>q. go_next p = Inr q \<and> current_index q = int (length (steps p)) - 1)"
    using go_next_in_bounds [OF lo hi] by auto
  have c: "current_index p = 0 \<longrightarrow> (\<exists>q. go_prev p = Inr q \<and> current_index q = 0)"
    using go_prev_in_bounds [OF lo hi] by auto
  have e: "\<forall>idx. idx < 0 \<or> int (length (steps p)) \<le> idx \<longrightarrow> load_step idx p = p"
    by (simp add: load_step_def)
  show ?thesis using a b c e by blast
qed

text \<open>
  Three steps: a run of events starting on the first step, Previous on the first step,
  Next on the last step, and \<^verbatim>\<open>load_step(3)\<close>.
\<close>

theorem navigation_in_bounds_witness:
  "(\<exists>q d'. run ''2024-01-05 10:05:00''
             [Choose ''NC'', Press Next, Press Next, Choose ''TV'', Enter_name ''x'', Press Next,
              Press Next, Press Previous, Press Previous, Press Previous]
             (three_missing, example_db) = Inr (q, d')
      \<and> 0 \<le> current_index q \<and> current_index q < 3 \<and> length (steps q) = 3)
   \<and> (\<exists>q. go_prev three_missing = Inr q \<and> current_index q = 0)
   \<and> (\<exists>q. go_next three_chosen = Inr q \<and> current_index q = 2)
   \<and> load_step 3 three_missing = three_missing"
proof -
  have lo: "0 \<le> current_index three_missing"
    by code_simp
  have hi: "current_index three_missing < int (length (steps three_missing))"
    by code_simp
  have lo': "0 \<le> current_index three_chosen"
    by code_simp
  have hi': "current_index three_chosen < int (length (steps three_chosen))"
    by code_simp
  have facts: "length (steps three_missing) = 3" "current_index three_missing = 0"
    "length (steps three_chosen) = 3" "current_index three_chosen = 2"
    by code_simp+
  from navigation_in_bounds [OF lo hi, of "''2024-01-05 10:05:00''"
         "[Choose ''NC'', Press Next, Press Next, Choose ''TV'', Enter_name ''x'', Press Next,
           Press Next, Press Previous, Press Previous, Press Previous]" example_db]
       navigation_in_bounds [OF lo' hi', of "''2024-01-05 10:05:00''" "[]" example_db] facts
  show ?thesis by (auto simp del: run.simps)
qed

section \<open>Terminal save\<close>

lemma insert_remark_Inr:
  assumes "insert_remark m d = (Inr u, d')"
  shows "\<exists>i. remarks d' = remarks d @ [m\<lparr>remark_id := i\<rparr>]
           \<and> committed_remarks d' = committed_remarks d \<and> records d' = records d"
  using assms
  by (auto simp: insert_remark_def run_statement_def Let_def
      split: if_splits list.splits prod.splits)

lemma insert_steps_Inr:
  "insert_steps rid now ss d = (Inr u, d') \<Longrightarrow>
     \<exists>rows. remarks d' = remarks d @ rows
        \<and> map (\<lambda>m. m\<lparr>remark_id := 0\<rparr>) rows = map (remark_of rid now) ss
        \<and> committed_remarks d' = committed_remarks d \<and> records d' = records d"
proof (induction ss arbitrary: d)
  case Nil
  then show ?case by simp
next
  case (Cons s ss)
  from Cons.prems obtain d1 where
    one: "insert_remark (remark_of rid now s) d = (Inr (), d1)"
    and rest: "insert_steps rid now ss d1 = (Inr u, d')"
    by (auto split: prod.splits sum.splits)
  from insert_remark_Inr [OF one] obtain i where
    d1: "remarks d1 = remarks d @ [(remark_of rid now s)\<lparr>remark_id := i\<rparr>]"
      "committed_remarks d1 = committed_remarks d" "records d1 = records d"
    by blast
  from Cons.IH [OF rest] obtain rows where
    rows: "remarks d' = remarks d1 @ rows"
      "map (\<lambda>m. m\<lparr>remark_id := 0\<rparr>) rows = map (remark_of rid now) ss"
      "committed_remarks d' = committed_remarks d1" "records d' = records d1"
    by blast
  have "map (\<lambda>m. m\<lparr>remark_id := 0\<rparr>) ((remark_of rid now s)\<lparr>remark_id := i\<rparr> # rows)
          = map (remark_of rid now) (s # ss)"
    using rows(2) by (simp add: remark_of_def)
  then show ?case
    using d1 rows by (intro exI [of _ "(remark_of rid now s)\<lparr>remark_id := i\<rparr> # rows"]) simp
qed

lemma commit_Inr:
  "commit d = (Inr u, d') \<Longrightarrow>
     remarks d' = remarks d \<and> committed_remarks d' = remarks d
     \<and> records d' = records d \<and> committed_records d' = records d"
  by (auto simp: commit_def run_statement_def Let_def split: if_splits list.splits prod.splits)

lemma persist_steps_Inr:
  assumes "persist_steps rid now ss d = (Inr u, d')"
  shows "\<exists>rows. remarks d' = remarks d @ rows \<and> committed_remarks d' = remarks d'
           \<and> map rem_seq rows = map seq ss
           \<and> map remark_type rows = map (\<lambda>s. case selected s of None \<Rightarrow> [] | Some r \<Rightarrow> r) ss
           \<and> map consumer_name rows = map consumer ss
           \<and> map rem_record_id rows = map (\<lambda>s. rid) ss"
proof -
  from assms obtain d1 where ins: "insert_steps rid now ss d = (Inr (), d1)"
    and com: "commit d1 = (Inr u, d')"
    by (auto simp: persist_steps_def split: prod.splits sum.splits)
  from insert_steps_Inr [OF ins] obtain rows where
    rows: "remarks d1 = remarks d @ rows"
      "map (\<lambda>m. m\<lparr>remark_id := 0\<rparr>) rows = map (remark_of rid now) ss"
    by blast
  have "map rem_seq (map (\<lambda>m. m\<lparr>remark_id := 0\<rparr>) rows) = map rem_seq (map (remark_of rid now) ss)"
    "map remark_type (map (\<lambda>m. m\<lparr>remark_id := 0\<rparr>) rows) = map remark_type (map (remark_of rid now) ss)"
    "map consumer_name (map (\<lambda>m. m\<lparr>remark_id := 0\<rparr>) rows) = map consumer_name (map (remark_of rid now) ss)"
    "map rem_record_id (map (\<lambda>m. m\<lparr>remark_id := 0\<rparr>) rows) = map rem_record_id (map (remark_of rid now) ss)"
    using rows(2) by simp_all
  then have cols: "map rem_seq rows = map seq ss"
    "map remark_type rows = map (\<lambda>s. case selected s of None \<Rightarrow> [] | Some r \<Rightarrow> r) ss"
    "map consumer_name rows = map consumer ss"
    "map rem_record_id rows = map (\<lambda>s. rid) ss"
    by (simp_all add: remark_of_def o_def)
  from commit_Inr [OF com] rows(1) cols show ?thesis
    by auto
qed

text \<open>With a healthy storage and values that fit 64 bits, the batch is written.\<close>

lemma insert_steps_healthy:
  "faults d = [] \<Longrightarrow> sql_int rid \<Longrightarrow> list_all (\<lambda>s. sql_int (seq s)) ss \<Longrightarrow>
     \<exists>d'. insert_steps rid now ss d = (Inr (), d') \<and> faults d' = []"
proof (induction ss arbitrary: d)
  case Nil
  then show ?case by simp
next
  case (Cons s ss)
  define d1 where "d1 = snd (insert_remark (remark_of rid now s) d)"
  have one: "insert_remark (remark_of rid now s) d = (Inr (), d1)" and ok: "faults d1 = []"
    unfolding d1_def using Cons.prems
    by (simp_all add: insert_remark_def remark_of_def run_statement_def Let_def)
  from Cons.IH [OF ok Cons.prems(2)] Cons.prems(3) obtain d' where
    "insert_steps rid now ss d1 = (Inr (), d')" "faults d' = []"
    by auto
  with one show ?case by simp
qed

lemma persist_steps_healthy:
  assumes "faults d = []" "sql_int rid" "list_all (\<lambda>s. sql_int (seq s)) ss"
  shows "\<exists>d'. persist_steps rid now ss d = (Inr (), d')"
proof -
  from insert_steps_healthy [OF assms] obtain d1 where
    d1: "insert_steps rid now ss d = (Inr (), d1)" "faults d1 = []"
    by blast
  then show ?thesis
    by (simp add: persist_steps_def commit_def run_statement_def Let_def)
qed


text \<open>
  C2. \<^verbatim>\<open>save_all\<close> first writes the widgets into the current step (\<open>q\<close> below). If a
  step of \<open>q\<close> then has no reason, it opens the "Required" message, leaves the database
  as it was and the popup open. If every step has a reason (a non-empty text, as all
  offered options are) and the INSERTs and the commit succeed, one row per step has been
  appended to \<^verbatim>\<open>remarks\<close> in list order, with the step's seq, reason and consumer and
  the popup's record id, everything is committed, and the popup is dismissed.
\<close>

theorem save_all_all_or_nothing:
  assumes cur: "save_current p = Inr q"
  shows "((\<exists>s \<in> set (steps q). selected s = None) \<longrightarrow>
            save_all now p d =
              Inr (alert ''Required'' ''All entries must have a reason selected before saving.'' q, d)
            \<and> is_open (alert ''Required'' ''All entries must have a reason selected before saving.'' q)
                = is_open p)
       \<and> ((\<forall>s \<in> set (steps q). \<exists>r. selected s = Some r \<and> r \<noteq> [])
            \<and> persist_steps (record_id p) now (steps q) d = (Inr (), d') \<longrightarrow>
            save_all now p d = Inr (dismiss (alert ''Saved'' ''Reconciliation saved.'' q), d')
            \<and> \<not> is_open (dismiss (alert ''Saved'' ''Reconciliation saved.'' q))
            \<and> (\<exists>rows. remarks d' = remarks d @ rows \<and> committed_remarks d' = remarks d'
                  \<and> map rem_seq rows = map seq (steps p)
                  \<and> map (\<lambda>m. Some (remark_type m)) rows = map selected (steps q)
                  \<and> map consumer_name rows = map consumer (steps q)
                  \<and> map rem_record_id rows = map (\<lambda>s. record_id p) (steps q)))"
proof -
  note fr = save_current_frame [OF cur]
  have none: "(\<exists>s \<in> set (steps q). selected s = None) \<longrightarrow>
            save_all now p d =
              Inr (alert ''Required'' ''All entries must have a reason selected before saving.'' q, d)
            \<and> is_open (alert ''Required'' ''All entries must have a reason selected before saving.'' q)
                = is_open p"
  proof
    assume "\<exists>s \<in> set (steps q). selected s = None"
    then obtain s where "s \<in> set (steps q)" "unselected s"
      by (auto simp: unselected_def)
    then have "list_ex unselected (steps q)"
      unfolding list_ex_iff by blast
    then show "save_all now p d =
              Inr (alert ''Required'' ''All entries must have a reason selected before saving.'' q, d)
            \<and> is_open (alert ''Required'' ''All entries must have a reason selected before saving.'' q)
                = is_open p"
      using cur fr by (simp add: save_all_def alert_def)
  qed
  have all: "(\<forall>s \<in> set (steps q). \<exists>r. selected s = Some r \<and> r \<noteq> [])
            \<and> persist_steps (record_id p) now (steps q) d = (Inr (), d') \<longrightarrow>
            save_all now p d = Inr (dismiss (alert ''Saved'' ''Reconciliation saved.'' q), d')
            \<and> \<not> is_open (dismiss (alert ''Saved'' ''Reconciliation saved.'' q))
            \<and> (\<exists>rows. remarks d' = remarks d @ rows \<and> committed_remarks d' = remarks d'
                  \<and> map rem_seq rows = map seq (steps p)
                  \<and> map (\<lambda>m. Some (remark_type m)) rows = map selected (steps q)
                  \<and> map consumer_name rows = map consumer (steps q)
                  \<and> map rem_record_id rows = map (\<lambda>s. record_id p) (steps q))"
  proof
    assume a: "(\<forall>s \<in> set (steps q). \<exists>r. selected s = Some r \<and> r \<noteq> [])
            \<and> persist_steps (record_id p) now (steps q) d = (Inr (), d')"
    then have sel: "\<forall>s \<in> set (steps q). \<exists>r. selected s = Some r \<and> r \<noteq> []"
      and per: "persist_steps (record_id p) now (steps q) d = (Inr (), d')"
      by simp_all
    have no: "\<not> list_ex unselected (steps q)"
      using sel by (auto simp: list_ex_iff unselected_def)
    have run: "save_all now p d = Inr (dismiss (alert ''Saved'' ''Reconciliation saved.'' q), d')"
      using cur fr no per by (simp add: save_all_def)
    from persist_steps_Inr [OF per] obtain rows where
      rows: "remarks d' = remarks d @ rows" "committed_remarks d' = remarks d'"
        "map rem_seq rows = map seq (steps q)"
        "map remark_type rows = map (\<lambda>s. case selected s of None \<Rightarrow> [] | Some r \<Rightarrow> r) (steps q)"
        "map consumer_name rows = map consumer (steps q)"
        "map rem_record_id rows = map (\<lambda>s. record_id p) (steps q)"
      by blast
    have "map Some (map remark_type rows) = map selected (steps q)"
      unfolding rows(4) using sel by (auto simp: o_def)
    then have types: "map (\<lambda>m. Some (remark_type m)) rows = map selected (steps q)"
      by (simp add: o_def)
    show "save_all now p d = Inr (dismiss (alert ''Saved'' ''Reconciliation saved.'' q), d')
            \<and> \<not> is_open (dismiss (alert ''Saved'' ''Reconciliation saved.'' q))
            \<and> (\<exists>rows. remarks d' = remarks d @ rows \<and> committed_remarks d' = remarks d'
                  \<and> map rem_seq rows = map seq (steps p)
                  \<and> map (\<lambda>m. Some (remark_type m)) rows = map selected (steps q)
                  \<and> map consumer_name rows = map consumer (steps q)
                  \<and> map rem_record_id rows = map (\<lambda>s. record_id p) (steps q))"
      using run rows types fr by (auto simp: dismiss_def)
  qed
  show ?thesis using none all by blast
qed

text \<open>
  Three steps with nothing chosen: the save is refused. Three steps all chosen: three
  rows with seq 1, 2, 3 are committed.
\<close>

theorem save_all_all_or_nothing_witness:
  "(\<exists>q. save_all ''2024-01-05 10:05:00'' three_missing example_db = Inr (q, example_db)
       \<and> is_open q
       \<and> alerts q = [Alert ''Required'' ''All entries must have a reason selected before saving.''])
   \<and> (\<exists>q d'. save_all ''2024-01-05 10:05:00'' three_chosen example_db = Inr (q, d')
       \<and> \<not> is_open q
       \<and> map rem_seq (committed_remarks d') = [1, 2, 3]
       \<and> map remark_type (committed_remarks d') = [''NC'', ''TV'', ''DBC''])"
proof -
  have cur1: "save_current three_missing = Inr three_missing"
    by code_simp
  have none: "\<exists>s \<in> set (steps three_missing). selected s = None"
    by code_simp
  have open1: "is_open three_missing" "alerts three_missing = []"
    by code_simp+
  from save_all_all_or_nothing [OF cur1, of "''2024-01-05 10:05:00''" example_db] none open1
  have first: "\<exists>q. save_all ''2024-01-05 10:05:00'' three_missing example_db = Inr (q, example_db)
       \<and> is_open q
       \<and> alerts q = [Alert ''Required'' ''All entries must have a reason selected before saving.'']"
    by (simp add: alert_def)
  define q2 where "q2 = projr (save_current three_chosen)"
  define d2 where "d2 = snd (persist_steps 1 ''2024-01-05 10:05:00'' (steps q2) example_db)"
  have cur2: "save_current three_chosen = Inr q2"
    unfolding q2_def by code_simp
  have steps2: "steps q2 =
      [(missing_step 0)\<lparr>selected := Some ''NC'', consumer := ''Asha''\<rparr>,
       (missing_step 1)\<lparr>selected := Some ''TV''\<rparr>,
       (missing_step 2)\<lparr>selected := Some ''DBC'', consumer := ''Ravi''\<rparr>]"
    unfolding q2_def by code_simp
  have sel: "\<forall>s \<in> set (steps q2). \<exists>r. selected s = Some r \<and> r \<noteq> []"
    by (simp add: steps2)
  have "fst (persist_steps 1 ''2024-01-05 10:05:00'' (steps q2) example_db) = Inr ()"
    unfolding q2_def by code_simp
  moreover have "record_id three_chosen = 1"
    by code_simp
  ultimately have per: "persist_steps (record_id three_chosen) ''2024-01-05 10:05:00'' (steps q2) example_db = (Inr (), d2)"
    by (simp add: d2_def prod_eq_iff)
  have rows: "map rem_seq (committed_remarks d2) = [1, 2, 3]"
    "map remark_type (committed_remarks d2) = [''NC'', ''TV'', ''DBC'']"
    unfolding d2_def q2_def by code_simp+
  from save_all_all_or_nothing [OF cur2, of "''2024-01-05 10:05:00''" example_db d2] sel per
  have "save_all ''2024-01-05 10:05:00'' three_chosen example_db
          = Inr (dismiss (alert ''Saved'' ''Reconciliation saved.'' q2), d2)
        \<and> \<not> is_open (dismiss (alert ''Saved'' ''Reconciliation saved.'' q2))"
    by blast
  with rows have second: "\<exists>q d'. save_all ''2024-01-05 10:05:00'' three_chosen example_db = Inr (q, d')
       \<and> \<not> is_open q
       \<and> map rem_seq (committed_remarks d') = [1, 2, 3]
       \<and> map remark_type (committed_remarks d') = [''NC'', ''TV'', ''DBC'']"
    by (intro exI [of _ "dismiss (alert ''Saved'' ''Reconciliation saved.'' q2)"] exI [of _ d2])
       simp
  show ?thesis using first second by blast
qed


section \<open>Creating a record\<close>

text \<open>\<^verbatim>\<open>int(str(n))\<close> is \<open>n\<close>.\<close>

lemma digit_val_digit_char: "0 \<le> k \<Longrightarrow> k < 10 \<Longrightarrow> digit_val (digit_char k) = Some k"
proof -
  assume "0 \<le> k" "k < 10"
  then have "k = 0 \<or> k = 1 \<or> k = 2 \<or> k = 3 \<or> k = 4 \<or> k = 5 \<or> k = 6 \<or> k = 7 \<or> k = 8 \<or> k = 9"
    by arith
  then show ?thesis
    by (elim disjE) (simp_all add: digit_val_def digit_char_def)
qed

lemma digit_char_not_underscore: "0 \<le> k \<Longrightarrow> k < 10 \<Longrightarrow> digit_char k \<noteq> CHR ''_''"
  using digit_val_digit_char [of k] by (auto simp: digit_val_def)

lemma digit_char_not_space: "0 \<le> k \<Longrightarrow> k < 10 \<Longrightarrow> \<not> is_space (digit_char k)"
  using digit_val_digit_char [of k] by (auto simp: digit_val_def is_space_def split: if_splits)




















text \<open>
  C4. One cylinder delivered and two paid online: \<^verbatim>\<open>calculate\<close> shows "Input error"
  and returns, but \<^verbatim>\<open>on_submit\<close> does not look at that outcome. It inserts and commits
  the record and opens the reconciliation popup.
\<close>

theorem on_submit_stores_rejected_entry:
  "(case on_submit ''2024-01-05 10:05:00'' overpaid_entry example_db of
      (res, scr', d') \<Rightarrow>
        entry_alerts scr' =
          [Alert ''Input error'' ''Online + PayTM full count cannot exceed total deliveries.'']
        \<and> map (\<lambda>r. (total_cyl r, online_pay r, paytm_pay r)) (committed_records d')
            = [(10, 0, 0), (1, 2, 0)]
        \<and> map_sum id (map_option is_open) res = Inr (Some True))"
  by code_simp

section \<open>Listing the records of a date\<close>

text \<open>
  The consumer names the popup stores are stripped: \<^verbatim>\<open>save_current\<close> writes
  \<^verbatim>\<open>name_input.text.strip()\<close>, and stripping twice changes nothing.
\<close>

lemma dropWhile_fixed: "xs = [] \<or> \<not> P (hd xs) \<Longrightarrow> dropWhile P xs = xs"
  by (cases xs) auto

lemma last_dropWhile: "dropWhile P xs \<noteq> [] \<Longrightarrow> last (dropWhile P xs) = last xs"
  by (induction xs) (auto split: if_splits)

lemma strip_strip: "strip (strip s) = strip s"
proof -
  let ?x = "dropWhile is_space s"
  let ?y = "dropWhile is_space (rev ?x)"
  have y: "?y = [] \<or> \<not> is_space (hd ?y)"
    using hd_dropWhile [of is_space "rev ?x"] by blast
  have "rev ?y = [] \<or> \<not> is_space (hd (rev ?y))"
  proof (cases "?y = []")
    case True
    then show ?thesis by simp
  next
    case False
    then have "rev ?x \<noteq> []" by (metis dropWhile.simps(1))
    then have x: "?x \<noteq> []" by simp
    have "hd (rev ?y) = last ?y"
      using False by (simp add: hd_rev)
    also have "\<dots> = last (rev ?x)"
      using False by (rule last_dropWhile)
    also have "\<dots> = hd ?x"
      using x by (simp add: last_rev)
    finally have "hd (rev ?y) = hd ?x" .
    moreover have "\<not> is_space (hd ?x)"
      using x hd_dropWhile [of is_space s] by blast
    ultimately show ?thesis by simp
  qed
  then have a: "dropWhile is_space (rev ?y) = rev ?y"
    by (rule dropWhile_fixed)
  have b: "dropWhile is_space ?y = ?y"
    using y by (rule dropWhile_fixed)
  show ?thesis
    by (simp add: strip_def a b)
qed

lemma save_current_strips:
  assumes "save_current p = Inr q" "\<forall>s \<in> set (steps p). strip (consumer s) = consumer s"
  shows "\<forall>s \<in> set (steps q). strip (consumer s) = consumer s"
proof -
  from assms(1) obtain i s where q: "steps q = (steps p)[i := s\<lparr>consumer := strip (name_input p)\<rparr>]"
    by (auto simp: save_current_def Let_def split: sum.splits)
  show ?thesis
  proof
    fix t assume "t \<in> set (steps q)"
    then have "t \<in> insert (s\<lparr>consumer := strip (name_input p)\<rparr>) (set (steps p))"
      unfolding q using set_update_subset_insert by fastforce
    then show "strip (consumer t) = consumer t"
      using assms(2) by (auto simp: strip_strip)
  qed
qed

text \<open>
  So tidiness is kept by \<^verbatim>\<open>update_and_prepare\<close> and by every event the popup handles, a
  save that fails partway included: the popup never writes a name with whitespace at
  either end into \<^verbatim>\<open>remarks\<close>.
\<close>

lemma insert_remark_any:
  assumes "insert_remark m d = (r, d')"
  shows "remarks d' = remarks d \<or> (\<exists>i. remarks d' = remarks d @ [m\<lparr>remark_id := i\<rparr>])"
  using assms
  by (auto simp: insert_remark_def run_statement_def Let_def
      split: if_splits list.splits prod.splits)

lemma insert_steps_stripped:
  "insert_steps rid now ss d = (r, d') \<Longrightarrow>
   list_all (\<lambda>s. strip (consumer s) = consumer s) ss \<Longrightarrow>
   list_all (\<lambda>m. strip (consumer_name m) = consumer_name m) (remarks d) \<Longrightarrow>
   list_all (\<lambda>m. strip (consumer_name m) = consumer_name m) (remarks d')"
proof (induction ss arbitrary: d)
  case Nil
  then show ?case by simp
next
  case (Cons s ss)
  obtain r1 d1 where one: "insert_remark (remark_of rid now s) d = (r1, d1)"
    by (cases "insert_remark (remark_of rid now s) d")
  from insert_remark_any [OF one] Cons.prems(2,3)
  have d1: "list_all (\<lambda>m. strip (consumer_name m) = consumer_name m) (remarks d1)"
    by (auto simp: remark_of_def)
  show ?case
  proof (cases r1)
    case (Inl e)
    with one Cons.prems(1) have "d' = d1" by simp
    with d1 show ?thesis by simp
  next
    case (Inr u)
    with one Cons.prems(1) have "insert_steps rid now ss d1 = (r, d')" by simp
    from Cons.IH [OF this _ d1] Cons.prems(2) show ?thesis by simp
  qed
qed

lemma commit_remarks: "commit d = (r, d') \<Longrightarrow> remarks d' = remarks d"
  by (auto simp: commit_def run_statement_def Let_def split: if_splits list.splits prod.splits)

lemma persist_steps_stripped:
  assumes "persist_steps rid now ss d = (r, d')"
    "list_all (\<lambda>s. strip (consumer s) = consumer s) ss"
    "list_all (\<lambda>m. strip (consumer_name m) = consumer_name m) (remarks d)"
  shows "list_all (\<lambda>m. strip (consumer_name m) = consumer_name m) (remarks d')"
proof -
  obtain r1 d1 where ins: "insert_steps rid now ss d = (r1, d1)"
    by (cases "insert_steps rid now ss d")
  note d1 = insert_steps_stripped [OF ins assms(2,3)]
  show ?thesis
  proof (cases r1)
    case (Inl e)
    with ins assms(1) have "d' = d1" by (simp add: persist_steps_def)
    with d1 show ?thesis by simp
  next
    case (Inr u)
    with ins assms(1) have "commit d1 = (r, d')" by (simp add: persist_steps_def)
    from commit_remarks [OF this] d1 show ?thesis by simp
  qed
qed

lemma save_current_tidy:
  assumes "save_current p = Inr q" "list_all (\<lambda>s. strip (consumer s) = consumer s) (steps p)"
  shows "list_all (\<lambda>s. strip (consumer s) = consumer s) (steps q)"
  using save_current_strips [OF assms(1)] assms(2) by (simp add: list_all_iff)

lemma handle_tidy:
  assumes "handle now ev w = Inr w'" "tidy w"
  shows "tidy w'"
proof (cases ev)
  case (Choose r)
  with assms show ?thesis by (auto simp: handle_def tidy_def)
next
  case (Enter_name n)
  with assms show ?thesis by (auto simp: handle_def tidy_def)
next
  case (Press b)
  from assms(2) have st: "list_all (\<lambda>s. strip (consumer s) = consumer s) (steps (fst w))"
    and rm: "list_all (\<lambda>m. strip (consumer_name m) = consumer_name m) (remarks (snd w))"
    by (simp_all add: tidy_def)
  show ?thesis
  proof (cases b)
    case Previous
    with Press assms(1) obtain q0 where q0: "save_current (fst w) = Inr q0"
      and w': "w' = (load_step (max (current_index q0 - 1) 0)
                      (q0\<lparr>current_index := max (current_index q0 - 1) 0\<rparr>), snd w)"
      by (auto simp: handle_def press_def go_prev_def Let_def split: sum.splits)
    from save_current_tidy [OF q0 st] rm w' show ?thesis
      by (simp add: tidy_def)
  next
    case Next
    with Press assms(1) obtain q0 where q0: "save_current (fst w) = Inr q0"
      and w': "steps (fst w') = steps q0" "snd w' = snd w"
      by (auto simp: handle_def press_def go_next_def alert_def Let_def
          split: sum.splits if_splits)
    from save_current_tidy [OF q0 st] rm w' show ?thesis
      by (simp add: tidy_def)
  next
    case Cancel
    with Press assms show ?thesis
      by (auto simp: handle_def press_def dismiss_def tidy_def)
  next
    case Save_and_Close
    with Press assms(1) obtain q0 where q0: "save_current (fst w) = Inr q0"
      and sv: "save_all now (fst w) (snd w) = Inr w'"
      by (auto simp: handle_def press_def save_all_def split: sum.splits)
    note t0 = save_current_tidy [OF q0 st]
    from sv q0 have st': "steps (fst w') = steps q0"
      by (auto simp: save_all_def alert_def dismiss_def split: if_splits prod.splits sum.splits)
    from sv q0 have "snd w' = snd w
        \<or> (\<exists>r. persist_steps (record_id q0) now (steps q0) (snd w) = (r, snd w'))"
      by (auto simp: save_all_def split: if_splits prod.splits sum.splits)
    then have "list_all (\<lambda>m. strip (consumer_name m) = consumer_name m) (remarks (snd w'))"
      using rm persist_steps_stripped [OF _ t0 rm] by auto
    with t0 st' show ?thesis
      by (simp add: tidy_def)
  qed
qed

lemma run_tidy: "run now evs w = Inr w' \<Longrightarrow> tidy w \<Longrightarrow> tidy w'"
proof (induction evs arbitrary: w)
  case Nil
  then show ?case by simp
next
  case (Cons ev evs)
  from Cons.prems(1) obtain w1 where h: "handle now ev w = Inr w1" and r: "run now evs w1 = Inr w'"
    by (auto split: sum.splits)
  from Cons.IH [OF r handle_tidy [OF h Cons.prems(2)]] show ?case .
qed

lemma map_sum_Inr: "map_sum id f x = Inr y \<longleftrightarrow> (\<exists>z. x = Inr z \<and> y = f z)"
  by (cases x) auto

lemma open_steps_ui_steps: "open_steps_ui p = Inr q \<Longrightarrow> steps q = steps p"
  by (auto simp: open_steps_ui_def split: sum.splits)

lemma update_and_prepare_tidy:
  assumes run: "update_and_prepare p d = Inr (q, d')" and w: "tidy (p, d)"
  shows "tidy (q, d')"
proof -
  from w have st: "list_all (\<lambda>s. strip (consumer s) = consumer s) (steps p)"
    and rm: "list_all (\<lambda>m. strip (consumer_name m) = consumer_name m) (remarks d)"
    by (simp_all add: tidy_def)
  have "d' = d \<or> (\<exists>E r. store_empty_received E (record_id p) d = (r, d'))"
    using run
    by (auto simp: update_and_prepare_def Let_def map_sum_Inr
        split: sum.splits prod.splits if_splits)
  then have rem: "remarks d' = remarks d"
    by (auto dest: store_empty_received_remarks)
  have "steps q = steps p \<or> steps q = []
      \<or> (\<exists>n. steps q = map missing_step n) \<or> (\<exists>n. steps q = map extra_step n)"
    using run
    by (auto simp: update_and_prepare_def alert_def dismiss_def Let_def map_sum_Inr
        split: sum.splits prod.splits if_splits dest!: open_steps_ui_steps)
  moreover have "strip [] = []"
    by (simp add: strip_def)
  ultimately have "list_all (\<lambda>s. strip (consumer s) = consumer s) (steps q)"
    using st by (auto simp: list_all_iff missing_step_def extra_step_def)
  with rm rem show ?thesis
    by (simp add: tidy_def)
qed


text \<open>
  For a date text of digits and hyphens, as \<^verbatim>\<open>strftime("%Y-%m-%d")\<close> writes it, the LIKE
  pattern of \<^verbatim>\<open>load_records\<close> selects the timestamps that start with the date.
\<close>

lemma lower_plain:
  assumes "is_digit p \<or> p = CHR ''-''"
  shows "lower p = lower c \<longleftrightarrow> p = c"
proof -
  have p: "lower p = p" "p \<notin> set ''abcdefghijklmnopqrstuvwxyz''"
    using assms by (auto simp: lower_def is_digit_def digit_val_def split: if_splits)
  have "lower c = c \<or> lower c \<in> set ''abcdefghijklmnopqrstuvwxyz''"
    by (simp add: lower_def)
  with p show ?thesis by auto
qed

lemma sql_like_prefix:
  "list_all (\<lambda>c. is_digit c \<or> c = CHR ''-'') date \<Longrightarrow>
     sql_like (date @ ''%'') s \<longleftrightarrow> take (length date) s = date"
proof (induction date arbitrary: s)
  case Nil
  have "[] \<in> set (suffixes s)"
    by (simp add: in_set_suffixes)
  then show ?case
    by (auto simp: list_ex_iff)
next
  case (Cons p ps)
  then have plain: "is_digit p \<or> p = CHR ''-''" and rest: "list_all (\<lambda>c. is_digit c \<or> c = CHR ''-'') ps"
    by simp_all
  have np: "p \<noteq> CHR ''%''" "p \<noteq> CHR ''_''"
    using plain by (auto simp: is_digit_def digit_val_def)
  show ?case
  proof (cases s)
    case Nil
    with np show ?thesis by simp
  next
    case (Cons c cs)
    with np lower_plain [OF plain, of c] Cons.IH [OF rest, of cs] show ?thesis
      by auto
  qed
qed

lemma select_records_like_healthy:
  "faults d = [] \<Longrightarrow>
     select_records_like pat d
       = (Inr (sort_key rec_id (filter (\<lambda>r. sql_like pat (date_time r)) (records d))), d)"
  by (simp add: select_records_like_def run_statement_def)

lemma select_remarks_healthy:
  "faults d = [] \<Longrightarrow>
     select_remarks i d = (Inr (sort_key rem_seq (filter (\<lambda>m. rem_record_id m = i) (remarks d))), d)"
  by (simp add: select_remarks_def run_statement_def)

lemma table_rows_healthy:
  "faults d = [] \<Longrightarrow>
     \<exists>trs. table_rows idx rs d = (Inr trs, d) \<and> map shown trs = rs
        \<and> map sr trs = [idx..idx + int (length rs) - 1]
        \<and> (\<forall>t \<in> set trs. remarks_text t =
              join '', '' (map remark_entry
                (sort_key rem_seq (filter (\<lambda>m. rem_record_id m = rec_id (shown t)) (remarks d)))))"
proof (induction rs arbitrary: idx)
  case Nil
  then show ?case by simp
next
  case (Cons r rs)
  from Cons.IH [OF Cons.prems, of "idx + 1"] obtain trs where
    trs: "table_rows (idx + 1) rs d = (Inr trs, d)" "map shown trs = rs"
      "map sr trs = [idx + 1..idx + 1 + int (length rs) - 1]"
      "\<forall>t \<in> set trs. remarks_text t =
              join '', '' (map remark_entry
                (sort_key rem_seq (filter (\<lambda>m. rem_record_id m = rec_id (shown t)) (remarks d))))"
    by blast
  let ?t = "\<lparr>sr = idx, shown = r,
             remarks_text = join '', '' (map remark_entry
               (sort_key rem_seq (filter (\<lambda>m. rem_record_id m = rec_id r) (remarks d))))\<rparr>"
  have run: "table_rows idx (r # rs) d = (Inr (?t # trs), d)"
    using trs(1) select_remarks_healthy [OF Cons.prems] by simp
  have srs: "map sr (?t # trs) = [idx..idx + int (length (r # rs)) - 1]"
    using trs(3) by (simp add: upto_rec1 [of idx])
  show ?case
    using run srs trs(2,4) by (intro exI [of _ "?t # trs"]) simp
qed

lemma remark_entry_stripped:
  "strip (consumer_name m) = consumer_name m \<Longrightarrow>
     remark_entry m = (if consumer_name m = [] then remark_type m
                       else remark_type m @ '': '' @ consumer_name m)"
  by (simp add: remark_entry_def)

text \<open>
  C8. With a healthy storage, a date text of digits and hyphens and stripped consumer
  names in \<^verbatim>\<open>remarks\<close>, \<^verbatim>\<open>load_records\<close> shows exactly the records whose timestamp starts
  with the date, in ascending id order ("No records" when there is none), and the remarks
  text of each row is \<open>remark_summary\<close> of the record's remarks in ascending seq order.
\<close>

theorem load_records_lists_date:
  assumes date: "list_all (\<lambda>c. is_digit c \<or> c = CHR ''-'') date"
      and healthy: "faults d = []"
      and stripped: "\<forall>m \<in> set (remarks d). strip (consumer_name m) = consumer_name m"
  shows "\<exists>rows. load_records date d = (Inr (if rows = [] then No_records else Table rows), d)
           \<and> map shown rows
              = sort_key rec_id (filter (\<lambda>r. take (length date) (date_time r) = date) (records d))
           \<and> sorted (map (\<lambda>t. rec_id (shown t)) rows)
           \<and> (\<forall>t \<in> set rows.
                 sorted (map rem_seq
                   (sort_key rem_seq (filter (\<lambda>m. rem_record_id m = rec_id (shown t)) (remarks d))))
                 \<and> remarks_text t = remark_summary
                     (sort_key rem_seq (filter (\<lambda>m. rem_record_id m = rec_id (shown t)) (remarks d))))"
proof -
  let ?rs = "sort_key rec_id (filter (\<lambda>r. take (length date) (date_time r) = date) (records d))"
  have sel: "select_records_like (date @ ''%'') d = (Inr ?rs, d)"
    using select_records_like_healthy [OF healthy, of "date @ ''%''"]
    by (simp add: sql_like_prefix [OF date])
  from table_rows_healthy [OF healthy, of 1 ?rs] obtain trs where
    trs: "table_rows 1 ?rs d = (Inr trs, d)" "map shown trs = ?rs"
      "\<forall>t \<in> set trs. remarks_text t =
              join '', '' (map remark_entry
                (sort_key rem_seq (filter (\<lambda>m. rem_record_id m = rec_id (shown t)) (remarks d))))"
    by blast
  have empty: "trs = [] \<longleftrightarrow> ?rs = []"
    using trs(2) by (metis map_is_Nil_conv)
  have run: "load_records date d = (Inr (if trs = [] then No_records else Table trs), d)"
    using sel trs(1) empty by (simp add: load_records_def)
  have "map (\<lambda>t. rec_id (shown t)) trs = map rec_id (map shown trs)"
    by simp
  then have ord: "sorted (map (\<lambda>t. rec_id (shown t)) trs)"
    unfolding trs(2) by simp
  have sums: "\<forall>t \<in> set trs.
      sorted (map rem_seq
        (sort_key rem_seq (filter (\<lambda>m. rem_record_id m = rec_id (shown t)) (remarks d))))
      \<and> remarks_text t = remark_summary
          (sort_key rem_seq (filter (\<lambda>m. rem_record_id m = rec_id (shown t)) (remarks d)))"
  proof
    fix t assume t: "t \<in> set trs"
    let ?slots = "sort_key rem_seq (filter (\<lambda>m. rem_record_id m = rec_id (shown t)) (remarks d))"
    have "\<forall>m \<in> set ?slots. strip (consumer_name m) = consumer_name m"
      using stripped by simp
    then have m: "map remark_entry ?slots
        = map (\<lambda>m. if consumer_name m = [] then remark_type m
                    else remark_type m @ '': '' @ consumer_name m) ?slots"
      by (intro map_cong [OF refl] remark_entry_stripped) blast
    have "remarks_text t = join '', '' (map remark_entry ?slots)"
      using trs(3) t by blast
    also have "\<dots> = remark_summary ?slots"
      unfolding remark_summary_def m ..
    finally have "remarks_text t = remark_summary ?slots" .
    moreover have "sorted (map rem_seq ?slots)"
      by simp
    ultimately show "sorted (map rem_seq ?slots) \<and> remarks_text t = remark_summary ?slots"
      by blast
  qed
  show ?thesis
    using run trs(2) ord sums by (intro exI [of _ trs]) simp
qed

text \<open>
  Two records of 2024-01-05 (ids 1 and 3) and one of the next day; the remarks of
  record 1 are stored in the order 2, 3, 1.
\<close>

theorem load_records_lists_date_witness:
  "\<exists>rows. load_records ''2024-01-05'' report_db = (Inr (Table rows), report_db)
      \<and> map (\<lambda>t. rec_id (shown t)) rows = [1, 3]
      \<and> map remarks_text rows = [''NC: Asha, TV, DBC: Ravi'', []]"
proof -
  have date: "list_all (\<lambda>c. is_digit c \<or> c = CHR ''-'') ''2024-01-05''"
    by code_simp
  have healthy: "faults report_db = []"
    by code_simp
  have stripped: "\<forall>m \<in> set (remarks report_db). strip (consumer_name m) = consumer_name m"
    by code_simp
  from load_records_lists_date [OF date healthy stripped] obtain rows where
    run: "load_records ''2024-01-05'' report_db
            = (Inr (if rows = [] then No_records else Table rows), report_db)"
    by blast
  have ids: "map_sum id (\<lambda>v. case v of No_records \<Rightarrow> [] | Table ts \<Rightarrow> map (\<lambda>t. rec_id (shown t)) ts)
               (fst (load_records ''2024-01-05'' report_db)) = Inr [1, 3]"
    by code_simp
  have texts: "map_sum id (\<lambda>v. case v of No_records \<Rightarrow> [] | Table ts \<Rightarrow> map remarks_text ts)
               (fst (load_records ''2024-01-05'' report_db)) = Inr [''NC: Asha, TV, DBC: Ravi'', []]"
    by code_simp
  have ne: "rows \<noteq> []"
    using ids run by (auto split: if_splits)
  show ?thesis
    using run ids texts ne by (intro exI [of _ rows]) simp
qed

section \<open>The amount to collect\<close>

text \<open>\<open>round_half_even a b\<close> is within 1/2 of \<open>a / b\<close>, and even when it is exactly 1/2 away.\<close>

lemma round_half_even_near:
  assumes "0 < b"
  shows "\<bar>real_of_int (round_half_even a b) - real_of_int a / real_of_int b\<bar> \<le> 1 / 2
       \<and> (\<bar>real_of_int (round_half_even a b) - real_of_int a / real_of_int b\<bar> = 1 / 2
            \<longrightarrow> even (round_half_even a b))"
proof -
  define q where "q = a div b"
  define r where "r = a mod b"
  define t where "t = real_of_int r / real_of_int b"
  have a: "a = b * q + r" and r: "0 \<le> r" "r < b"
    using assms by (simp_all add: q_def r_def)
  have frac: "real_of_int a / real_of_int b = real_of_int q + t"
    using assms a by (simp add: t_def field_simps)
  have half: "(t < 1 / 2) = (2 * r < b)" "(1 / 2 < t) = (b < 2 * r)" "(t = 1 / 2) = (2 * r = b)"
    using assms by (auto simp: t_def field_simps)
  consider (lt) "2 * r < b" | (gt) "b < 2 * r" | (eq) "2 * r = b"
    by linarith
  then show ?thesis
  proof cases
    case lt
    then have k: "round_half_even a b = q"
      by (simp add: round_half_even_def Let_def q_def r_def)
    have "0 \<le> t" "t < 1 / 2"
      using lt half r assms by (simp_all add: t_def)
    then show ?thesis
      unfolding k frac by (simp add: abs_if)
  next
    case gt
    then have k: "round_half_even a b = q + 1"
      by (simp add: round_half_even_def Let_def q_def r_def)
    have "t < 1" "1 / 2 < t"
      using gt half r assms by (simp_all add: t_def)
    then show ?thesis
      unfolding k frac by (simp add: abs_if)
  next
    case eq
    then have k: "round_half_even a b = (if even q then q else q + 1)"
      by (simp add: round_half_even_def Let_def q_def r_def)
    have "t = 1 / 2"
      using eq half by simp
    then show ?thesis
      unfolding k frac by (simp add: abs_if)
  qed
qed


text \<open>The mantissa of a finite sum is not negative, so its sign is the constructor's flag.\<close>

lemma pow2_pos: "0 < pow2 k"
  by (simp add: pow2_def)

lemma round_half_even_nonneg: "0 \<le> a \<Longrightarrow> 0 < b \<Longrightarrow> 0 \<le> round_half_even a b"
  by (auto simp: round_half_even_def Let_def pos_imp_zdiv_nonneg_iff)





text \<open>
  The rounding of the float model is the format's: \<open>bit_length\<close> and \<open>floor_log2\<close> bracket
  their argument by powers of two, and a finite result of \<open>to_double s n d\<close> is a binary64
  number in canonical form within half a unit in the last place of \<open>n / d\<close>.
\<close>

lemma pow2_real: "0 \<le> k \<Longrightarrow> real_of_int (pow2 k) = 2 powi k"
  by (simp add: pow2_def power_int_nonneg_exp)

lemma pow2_succ: "0 \<le> k \<Longrightarrow> pow2 (k + 1) = 2 * pow2 k"
  by (simp add: pow2_def nat_add_distrib)

lemma bit_length_bounds:
  "0 < n \<Longrightarrow> 1 \<le> bit_length n \<and> pow2 (bit_length n - 1) \<le> n \<and> n < pow2 (bit_length n)"
proof (induction n rule: bit_length.induct)
  case (1 n)
  show ?case
  proof (cases "n div 2 = 0")
    case True
    with "1.prems" have "n = 1" by presburger
    then show ?thesis
      by (simp add: bit_length.simps [of 1] bit_length.simps [of 0] pow2_def)
  next
    case False
    with "1.prems" have pos: "0 < n div 2" by presburger
    from "1.IH" "1.prems" pos have ih: "1 \<le> bit_length (n div 2)"
      "pow2 (bit_length (n div 2) - 1) \<le> n div 2" "n div 2 < pow2 (bit_length (n div 2))"
      by simp_all
    have bl: "bit_length n = bit_length (n div 2) + 1"
      using "1.prems" by (simp add: bit_length.simps [of n])
    have "pow2 (bit_length (n div 2)) = 2 * pow2 (bit_length (n div 2) - 1)"
      using ih(1) pow2_succ [of "bit_length (n div 2) - 1"] by simp
    moreover have "pow2 (bit_length (n div 2) + 1) = 2 * pow2 (bit_length (n div 2))"
      using ih(1) pow2_succ [of "bit_length (n div 2)"] by simp
    ultimately show ?thesis
      using ih bl by (simp) presburger
  qed
qed


lemma bit_length_real:
  assumes "0 < n"
  shows "2 powi (bit_length n - 1) \<le> real_of_int n" "real_of_int n < 2 powi (bit_length n)"
proof -
  note b = bit_length_bounds [OF assms]
  have "real_of_int (pow2 (bit_length n - 1)) \<le> real_of_int n"
    using b by simp
  then show "2 powi (bit_length n - 1) \<le> real_of_int n"
    using b by (simp add: pow2_real)
  have "real_of_int n < real_of_int (pow2 (bit_length n))"
    using b by simp
  then show "real_of_int n < 2 powi (bit_length n)"
    using b by (simp add: pow2_real)
qed

lemma floor_log2_test:
  assumes "0 < n" "0 < d"
  shows "(if 0 \<le> c then d * pow2 c \<le> n else d \<le> n * pow2 (- c))
           \<longleftrightarrow> 2 powi c \<le> real_of_int n / real_of_int d"
proof (cases "0 \<le> c")
  case True
  have "(d * pow2 c \<le> n) = (real_of_int (d * pow2 c) \<le> real_of_int n)"
    by (simp only: of_int_le_iff)
  also have "\<dots> = (real_of_int d * 2 powi c \<le> real_of_int n)"
    using True by (simp add: pow2_real)
  also have "\<dots> = (2 powi c \<le> real_of_int n / real_of_int d)"
    using assms by (simp add: field_simps)
  finally show ?thesis using True by simp
next
  case False
  have "(d \<le> n * pow2 (- c)) = (real_of_int d \<le> real_of_int (n * pow2 (- c)))"
    by (simp only: of_int_le_iff)
  also have "\<dots> = (real_of_int d \<le> real_of_int n * 2 powi (- c))"
    using False by (simp add: pow2_real)
  also have "\<dots> = (2 powi c \<le> real_of_int n / real_of_int d)"
    using assms by (simp add: power_int_minus field_simps)
  finally show ?thesis using False by simp
qed

lemma floor_log2_bounds:
  assumes "0 < n" "0 < d"
  shows "2 powi (floor_log2 n d) \<le> real_of_int n / real_of_int d"
    "real_of_int n / real_of_int d < 2 powi (floor_log2 n d + 1)"
proof -
  define a where "a = bit_length n"
  define b where "b = bit_length d"
  define c where "c = a - b"
  note na = bit_length_real [OF assms(1), folded a_def]
  note db = bit_length_real [OF assms(2), folded b_def]
  have dpos: "0 < real_of_int d" using assms by simp
  have ppos: "0 < (2::real) powi j" for j
    by (simp add: zero_less_power_int)
  have upper: "real_of_int n / real_of_int d < 2 powi (c + 1)"
  proof -
    have "real_of_int n / real_of_int d < 2 powi a / real_of_int d"
      using na(2) dpos by (simp add: divide_strict_right_mono)
    also have "\<dots> \<le> 2 powi a / 2 powi (b - 1)"
      using db(1) ppos [of "b - 1"] ppos [of a] by (intro frac_le) simp_all
    also have "\<dots> = 2 powi (c + 1)"
    proof -
      have e: "a - (b - 1) = c + 1" by (simp add: c_def)
      have "(2::real) powi a / 2 powi (b - 1) = 2 powi (a - (b - 1))"
        by (simp add: power_int_diff)
      then show ?thesis by (simp only: e)
    qed
    finally show ?thesis .
  qed
  have lower: "2 powi (c - 1) \<le> real_of_int n / real_of_int d"
  proof -
    have "(2::real) powi (c - 1) = 2 powi (a - 1) / 2 powi b"
    proof -
      have e: "a - 1 - b = c - 1" by (simp add: c_def)
      have "(2::real) powi (a - 1) / 2 powi b = 2 powi (a - 1 - b)"
        by (simp add: power_int_diff)
      then show ?thesis by (simp only: e)
    qed
    also have "\<dots> \<le> real_of_int n / 2 powi b"
      using na(1) by (simp add: divide_right_mono)
    also have "\<dots> \<le> real_of_int n / real_of_int d"
      using db(2) dpos assms(1) by (intro frac_le) simp_all
    finally show ?thesis .
  qed
  have "floor_log2 n d
      = (if (if 0 \<le> c then d * pow2 c \<le> n else d \<le> n * pow2 (- c)) then c else c - 1)"
    unfolding floor_log2_def Let_def a_def [symmetric] b_def [symmetric] c_def [symmetric] ..
  then have k: "floor_log2 n d
      = (if 2 powi c \<le> real_of_int n / real_of_int d then c else c - 1)"
    unfolding floor_log2_test [OF assms] .
  show "2 powi (floor_log2 n d) \<le> real_of_int n / real_of_int d"
    using k lower by simp
  show "real_of_int n / real_of_int d < 2 powi (floor_log2 n d + 1)"
    using k upper by (simp add: not_le)
qed


lemma to_double_nearest:
  assumes n: "0 < n" and d: "0 < d" and res: "to_double s n d = Finite s' m e"
  shows "s' = s \<and> \<bar>real_of_int m * 2 powi e - real_of_int n / real_of_int d\<bar> \<le> 2 powi e / 2
       \<and> 0 \<le> m \<and> m < pow2 53 \<and> - 1074 \<le> e \<and> e \<le> 971 \<and> (pow2 52 \<le> m \<or> e = - 1074)"
proof -
  define k where "k = floor_log2 n d"
  define x where "x = max (k - 52) (- 1074)"
  define v where "v = real_of_int n / real_of_int d"
  define sc where "sc = v / 2 powi x"
  define M where
    "M = (if 0 \<le> x then round_half_even n (d * pow2 x) else round_half_even (n * pow2 (- x)) d)"
  have ppos: "0 < (2::real) powi j" for j
    by (simp add: zero_less_power_int)
  note kb = floor_log2_bounds [OF n d, folded k_def v_def]
  have near: "\<bar>real_of_int M - sc\<bar> \<le> 1 / 2"
  proof (cases "0 \<le> x")
    case True
    have "real_of_int n / real_of_int (d * pow2 x) = sc"
      using True by (simp add: sc_def v_def pow2_real)
    with round_half_even_near [of "d * pow2 x" n] d pow2_pos [of x] True show ?thesis
      by (simp add: M_def)
  next
    case False
    have "real_of_int (n * pow2 (- x)) / real_of_int d = sc"
      using False by (simp add: sc_def v_def pow2_real power_int_minus field_simps)
    with round_half_even_near [OF d, of "n * pow2 (- x)"] False show ?thesis
      by (simp add: M_def)
  qed
  have sc_upper: "sc < 2 powi 53"
  proof -
    have "sc < 2 powi (k + 1) / 2 powi x"
      using kb(2) ppos [of x] by (simp add: sc_def divide_strict_right_mono)
    also have "\<dots> = 2 powi (k + 1 - x)"
      by (simp add: power_int_diff)
    also have "\<dots> \<le> 2 powi 53"
      by (rule power_int_increasing) (simp_all add: x_def)
    finally show ?thesis .
  qed
  have M_upper: "M \<le> pow2 53"
  proof -
    have "real_of_int M < 2 powi 53 + 1"
      using near sc_upper by linarith
    then have "real_of_int M < real_of_int (pow2 53 + 1)"
      by (simp add: pow2_real)
    then show ?thesis
      by linarith
  qed
  have M_lower: "pow2 52 \<le> M" if "x = k - 52"
  proof -
    have "2 powi 52 = 2 powi k / (2::real) powi x"
      using that by (simp add: power_int_diff [symmetric])
    also have "\<dots> \<le> sc"
      using kb(1) ppos [of x] by (simp add: sc_def divide_right_mono)
    finally have "2 powi 52 \<le> sc" .
    then have "2 powi 52 - 1 < real_of_int M"
      using near by linarith
    then have "real_of_int (pow2 52 - 1) < real_of_int M"
      by (simp add: pow2_real)
    then show ?thesis
      by linarith
  qed
  have canon: "pow2 52 \<le> M \<or> x = - 1074"
    using M_lower by (auto simp: x_def max_def)
  have M_nonneg: "0 \<le> M"
    using n d pow2_pos [of x] pow2_pos [of "- x"]
    by (simp add: M_def round_half_even_nonneg)
  have x_lower: "- 1074 \<le> x"
    by (simp add: x_def)
  have err: "\<bar>real_of_int M * 2 powi x - v\<bar> \<le> 2 powi x / 2"
  proof -
    have "real_of_int M * 2 powi x - v = (real_of_int M - sc) * 2 powi x"
      using ppos [of x] by (simp add: sc_def field_simps)
    then have "\<bar>real_of_int M * 2 powi x - v\<bar> = \<bar>real_of_int M - sc\<bar> * 2 powi x"
      using ppos [of x] by (simp add: abs_mult)
    also have "\<dots> \<le> 1 / 2 * 2 powi x"
      using near ppos [of x] by (intro mult_right_mono) simp_all
    finally show ?thesis by simp
  qed
  have "to_double s n d =
      (if n = 0 then Finite s 0 (- 1074)
       else if M = pow2 53 then (if 971 \<le> x then Infinity s else Finite s (pow2 52) (x + 1))
       else if 971 < x then Infinity s else Finite s M x)"
    unfolding to_double_def Let_def M_def x_def k_def ..
  moreover have "n \<noteq> 0"
    using n by simp
  ultimately have unfolded: "Finite s' m e =
      (if M = pow2 53 then (if 971 \<le> x then Infinity s else Finite s (pow2 52) (x + 1))
       else if 971 < x then Infinity s else Finite s M x)"
    using res by (simp only: if_False)
  show ?thesis
  proof (cases "M = pow2 53")
    case True
    with unfolded have r: "s' = s" "m = pow2 52" "e = x + 1" "x < 971"
      by (auto split: if_splits)
    have "real_of_int m * 2 powi e = real_of_int M * 2 powi x"
      using r True by (simp add: pow2_def power_int_add)
    moreover have "(2::real) powi x / 2 \<le> 2 powi e / 2"
      using r by (simp add: power_int_add)
    ultimately have "\<bar>real_of_int m * 2 powi e - v\<bar> \<le> 2 powi e / 2"
      using err by simp
    then show ?thesis
      using r x_lower by (simp add: v_def pow2_def)
  next
    case False
    with unfolded have r: "s' = s" "m = M" "e = x" "x \<le> 971"
      by (auto split: if_splits)
    from False M_upper have "M < pow2 53" by simp
    then show ?thesis
      using r err canon M_nonneg x_lower by (simp add: v_def)
  qed
qed





end
